theory Spec2Isabelle
  imports Main "HOL-Library.Product_Lexorder"
begin

section \<open>Data model\<close>

text \<open>
  A cell is a pair of Python integers \<open>(row, column)\<close>. A Python \<open>set\<close> of cells is a HOL
  set; \<open>len\<close> is \<open>card\<close>. Where the source iterates over a set, the model iterates over
  \<open>iter_set\<close>, one enumeration of it (Python's own order is the hash order). The result of
  each such loop is the same for every enumeration: the lemmas \<open>fold_mark_safe_heap\<close>,
  \<open>fold_mark_mine_heap\<close> and \<open>fold_mark_order\<close> show it for the loops of lines 277-282,
  and \<open>fold_repeat_step\<close> and \<open>set_remove_each_subset\<close> for those of lines 226-234.
\<close>

type_synonym cell = "int \<times> int"

definition iter_set :: "cell set \<Rightarrow> cell list" where
  "iter_set S = sorted_list_of_set S"

text \<open>Class \<open>Sentence\<close>: fields \<open>cells\<close> and \<open>count\<close>. \<open>__eq__\<close> compares both fields, which
  is equality of records.\<close>

record sentence =
  cells :: "cell set"
  count :: int

text \<open>\<open>Sentence.known_mines\<close> (lines 104-112) and \<open>Sentence.known_safes\<close> (lines 114-122).\<close>

definition known_mines :: "sentence \<Rightarrow> cell set" where
  "known_mines s = (if int (card (cells s)) = count s then cells s else {})"

definition known_safes :: "sentence \<Rightarrow> cell set" where
  "known_safes s = (if count s = 0 then cells s else {})"

text \<open>\<open>Sentence.mark_mine\<close> (lines 124-131) and \<open>Sentence.mark_safe\<close> (lines 133-139). The
  \<open>set.remove\<close> is guarded by the membership test, so it cannot raise.\<close>

definition sentence_mark_mine :: "cell \<Rightarrow> sentence \<Rightarrow> sentence" where
  "sentence_mark_mine c s =
     (if c \<in> cells s then s\<lparr>cells := cells s - {c}, count := count s - 1\<rparr> else s)"

definition sentence_mark_safe :: "cell \<Rightarrow> sentence \<Rightarrow> sentence" where
  "sentence_mark_safe c s =
     (if c \<in> cells s then s\<lparr>cells := cells s - {c}\<rparr> else s)"

text \<open>
  \<open>Sentence\<close> objects are mutable and shared between the lists \<open>self.knowledge\<close>,
  \<open>knowledge_original\<close> and \<open>knowledge_modified\<close>, so they live in a heap: a reference is an
  index into the list \<open>heap\<close>, and allocation appends. Class \<open>MinesweeperAI\<close> has the fields
  \<open>height\<close>, \<open>width\<close>, \<open>moves_made\<close>, \<open>mines\<close>, \<open>safes\<close> and \<open>knowledge\<close> (a list of
  references).
\<close>

type_synonym ref = nat

record ai =
  height :: int
  width :: int
  moves_made :: "cell set"
  mines :: "cell set"
  safes :: "cell set"
  knowledge :: "ref list"
  heap :: "sentence list"

datatype exn = ValueError | KeyError

text \<open>\<open>MinesweeperAI.__init__\<close> (lines 147-161).\<close>

definition new_ai :: "int \<Rightarrow> int \<Rightarrow> ai" where
  "new_ai h w = \<lparr>height = h, width = w, moves_made = {}, mines = {}, safes = {},
                 knowledge = [], heap = []\<rparr>"

section \<open>Operations of the player\<close>

text \<open>\<open>MinesweeperAI.mark_mine\<close> (lines 163-170) and \<open>MinesweeperAI.mark_safe\<close>
  (lines 172-179): the loop runs over the list \<open>self.knowledge\<close> and mutates each object.\<close>

definition heap_mark_mine :: "cell \<Rightarrow> ref \<Rightarrow> ai \<Rightarrow> ai" where
  "heap_mark_mine c r st = st\<lparr>heap := (heap st)[r := sentence_mark_mine c (heap st ! r)]\<rparr>"

definition heap_mark_safe :: "cell \<Rightarrow> ref \<Rightarrow> ai \<Rightarrow> ai" where
  "heap_mark_safe c r st = st\<lparr>heap := (heap st)[r := sentence_mark_safe c (heap st ! r)]\<rparr>"

definition mark_mine :: "cell \<Rightarrow> ai \<Rightarrow> ai" where
  "mark_mine c st = fold (heap_mark_mine c) (knowledge st) (st\<lparr>mines := insert c (mines st)\<rparr>)"

definition mark_safe :: "cell \<Rightarrow> ai \<Rightarrow> ai" where
  "mark_safe c st = fold (heap_mark_safe c) (knowledge st) (st\<lparr>safes := insert c (safes st)\<rparr>)"

subsection \<open>\<open>add_knowledge\<close>, lines 196-237: the new sentence\<close>

text \<open>The cells visited by \<open>for x in range(i - 1, i + 2): for y in range(j - 1, j + 2)\<close>, in
  the order of the visit (lines 210-212, and lines 66-67 of \<open>nearby_mines\<close>).\<close>

definition block :: "cell \<Rightarrow> cell list" where
  "block cell = (case cell of (i, j) \<Rightarrow> List.product [i - 1..i + 1] [j - 1..j + 1])"

text \<open>Lines 204-220: the cells of the block that are on the board, without \<open>cell\<close>.\<close>

definition neighbors_of :: "ai \<Rightarrow> cell \<Rightarrow> cell set" where
  "neighbors_of st cell =
     set (filter (\<lambda>(x, y). 0 \<le> x \<and> x < height st \<and> 0 \<le> y \<and> y < width st \<and> (x, y) \<noteq> cell)
                 (block cell))"

text \<open>Lines 226-231: one step of the loop over the neighbours, on the pair
  \<open>(repeat_neighbors, count)\<close>.\<close>

fun repeat_step :: "ai \<Rightarrow> cell \<Rightarrow> cell set \<times> int \<Rightarrow> cell set \<times> int" where
  "repeat_step st nb (rep, n) =
     (if nb \<in> safes st then (insert nb rep, n)
      else if nb \<in> mines st then (insert nb rep, n - 1)
      else (rep, n))"

text \<open>Lines 233-234: \<open>set.remove\<close> raises \<open>KeyError\<close> on an absent element.\<close>

fun set_remove_each :: "cell list \<Rightarrow> cell set \<Rightarrow> exn + cell set" where
  "set_remove_each [] S = Inr S"
| "set_remove_each (x # xs) S =
     (if x \<in> S then set_remove_each xs (S - {x}) else Inl KeyError)"

text \<open>\<open>Sentence(cells, count)\<close> allocates a new object; \<open>list.append\<close> on
  \<open>self.knowledge\<close>.\<close>

definition alloc :: "sentence \<Rightarrow> ai \<Rightarrow> ref \<times> ai" where
  "alloc s st = (length (heap st), st\<lparr>heap := heap st @ [s]\<rparr>)"

definition add_sentence :: "cell \<Rightarrow> int \<Rightarrow> ai \<Rightarrow> (exn \<times> ai) + ai" where
  "add_sentence cell n st =
     (let st1 = mark_safe cell (st\<lparr>moves_made := insert cell (moves_made st)\<rparr>);
          neighbors = neighbors_of st1 cell;
          (repeat_neighbors, n') = fold (repeat_step st1) (iter_set neighbors) ({}, n)
      in case set_remove_each (iter_set repeat_neighbors) neighbors of
           Inl e \<Rightarrow> Inl (e, st1)
         | Inr neighbors' \<Rightarrow>
             (case alloc \<lparr>cells = neighbors', count = n'\<rparr> st1 of
                (r, st2) \<Rightarrow> Inr (st2\<lparr>knowledge := knowledge st2 @ [r]\<rparr>)))"

subsection \<open>\<open>add_knowledge\<close>, lines 239-323: the loop\<close>

text \<open>Lines 247-274: the scan of \<open>knowledge_original\<close>, on the triple
  \<open>(new_safes, new_mines, sentences_to_remove)\<close>.\<close>

fun scan :: "sentence list \<Rightarrow> ref list \<Rightarrow> cell set \<times> cell set \<times> ref list
               \<Rightarrow> cell set \<times> cell set \<times> ref list" where
  "scan h [] acc = acc"
| "scan h (r # rs) (new_safes, new_mines, to_remove) =
     (if count (h ! r) = 0
        then scan h rs (new_safes \<union> cells (h ! r), new_mines, to_remove @ [r])
      else if count (h ! r) = int (card (cells (h ! r)))
        then scan h rs (new_safes, new_mines \<union> cells (h ! r), to_remove @ [r])
      else scan h rs (new_safes, new_mines, to_remove))"

text \<open>\<open>list.remove(x)\<close> deletes the first element equal to \<open>x\<close> under \<open>Sentence.__eq__\<close>
  (which holds of an object and itself), and raises \<open>ValueError\<close>, here \<open>None\<close>, when
  there is none.\<close>

fun list_remove :: "sentence list \<Rightarrow> sentence \<Rightarrow> ref list \<Rightarrow> ref list option" where
  "list_remove h v [] = None"
| "list_remove h v (r # rs) =
     (if h ! r = v then Some rs else map_option (Cons r) (list_remove h v rs))"

text \<open>Lines 285-286 and 309-310: \<open>for x in xs: knowledge_modified.remove(x)\<close>.\<close>

fun remove_each :: "sentence list \<Rightarrow> ref list \<Rightarrow> ref list \<Rightarrow> ref list option" where
  "remove_each h [] km = Some km"
| "remove_each h (x # xs) km =
     (case list_remove h (h ! x) km of None \<Rightarrow> None | Some km' \<Rightarrow> remove_each h xs km')"

text \<open>Lines 293-306: the pairs \<open>(sentence_orig, sentence_modif)\<close> that pass the test of
  line 298, in the order of the nested loops; \<open>old_sentences\<close> is the list of their first
  components and \<open>new_sentences\<close> holds one new object for each.\<close>

definition subset_pairs :: "sentence list \<Rightarrow> ref list \<Rightarrow> ref list \<Rightarrow> (ref \<times> ref) list" where
  "subset_pairs h ko km =
     [(a, b). a \<leftarrow> ko, b \<leftarrow> km,
              cells (h ! b) \<subseteq> cells (h ! a) \<and> cells (h ! b) \<noteq> cells (h ! a)]"

definition derived :: "sentence list \<Rightarrow> ref \<times> ref \<Rightarrow> sentence" where
  "derived h p = \<lparr>cells = cells (h ! fst p) - cells (h ! snd p),
                  count = count (h ! fst p) - count (h ! snd p)\<rparr>"

text \<open>
  One pass of the body of \<open>while True\<close>. The variable \<open>knowledge_original\<close> is \<open>Some l\<close>
  while it names a list object of its own (the copy of line 240), and \<open>None\<close> once line
  321 has made it the same list object as \<open>knowledge_modified\<close>: from then on every
  removal from and append to \<open>knowledge_modified\<close> is seen through \<open>knowledge_original\<close>
  too. \<open>self.knowledge\<close>, over which \<open>mark_safe\<close> and \<open>mark_mine\<close> loop, is not assigned
  before line 323. The pass is written in two parts: \<open>resolve\<close>, the direct conclusions
  and their removal, and \<open>subsume\<close>, the subset rule and the comparison of line 317.
  The result is the exception with the state it leaves, or the flag of line 317 with
  \<open>knowledge_modified\<close> and the state.
\<close>

definition the_orig :: "ref list option \<Rightarrow> ref list \<Rightarrow> ref list" where
  "the_orig ko km = (case ko of None \<Rightarrow> km | Some l \<Rightarrow> l)"

definition resolve :: "ref list option \<Rightarrow> ref list \<Rightarrow> ai \<Rightarrow> (exn \<times> ai) + (ref list \<times> ai)" where
  \<comment> \<open>lines 247-286\<close>
  "resolve ko km st =
     (case scan (heap st) (the_orig ko km) ({}, {}, []) of
        (new_safes, new_mines, to_remove) \<Rightarrow>
          (let st1 = fold mark_safe (iter_set new_safes) st;
               st2 = fold mark_mine (iter_set new_mines) st1
           in case remove_each (heap st2) to_remove km of
                None \<Rightarrow> Inl (ValueError, st2)
              | Some km1 \<Rightarrow> Inr (km1, st2)))"

definition subsume :: "ref list option \<Rightarrow> ref list \<Rightarrow> ai \<Rightarrow> (exn \<times> ai) + (bool \<times> ref list \<times> ai)" where
  \<comment> \<open>lines 289-317\<close>
  "subsume ko km st =
     (let pairs = subset_pairs (heap st) (the_orig ko km) km;
          new_refs = [length (heap st)..<length (heap st) + length pairs];
          st' = st\<lparr>heap := heap st @ map (derived (heap st)) pairs\<rparr>
      in case remove_each (heap st') (map fst pairs) km of
           None \<Rightarrow> Inl (ValueError, st')
         | Some km2 \<Rightarrow>
             (let km3 = km2 @ new_refs
              in Inr (map ((!) (heap st')) km3 = map ((!) (heap st')) (the_orig ko km3),
                      km3, st')))"

definition iteration :: "ref list option \<Rightarrow> ref list \<Rightarrow> ai \<Rightarrow> (exn \<times> ai) + (bool \<times> ref list \<times> ai)" where
  "iteration ko km st =
     (case resolve ko km st of
        Inl e \<Rightarrow> Inl e
      | Inr (km1, st2) \<Rightarrow> subsume ko km1 st2)"

lemma iteration_aliased: "iteration None km st = Inr (fixed, km', st') \<Longrightarrow> fixed"
  by (auto simp: iteration_def subsume_def the_orig_def Let_def
           split: prod.splits option.splits sum.splits)

function closure_loop :: "ref list option \<Rightarrow> ref list \<Rightarrow> ai \<Rightarrow> (exn \<times> ai) + ai" where
  "closure_loop ko km st =
     (case iteration ko km st of
        Inl e \<Rightarrow> Inl e
      | Inr (fixed, km', st') \<Rightarrow>
          if fixed then Inr (st'\<lparr>knowledge := km'\<rparr>) else closure_loop None km' st')"
  by pat_completeness auto
termination
proof (relation "measure (\<lambda>(ko, km, st). case ko of None \<Rightarrow> 0 | Some _ \<Rightarrow> 1)")
  fix ko km st and x :: "bool \<times> ref list \<times> ai" and fixed y km' st'
  assume "iteration ko km st = Inr x" "(fixed, y) = x" "(km', st') = y" "\<not> fixed"
  then have "iteration ko km st = Inr (False, km', st')"
    by auto
  then have "ko \<noteq> None"
    using iteration_aliased [of km st False km' st'] by (cases ko) auto
  then show "((None, km', st'), ko, km, st)
               \<in> measure (\<lambda>(ko, km, st). case ko of None \<Rightarrow> 0 | Some _ \<Rightarrow> 1)"
    by (cases ko) auto
qed simp

declare closure_loop.simps [simp del]

text \<open>\<open>MinesweeperAI.add_knowledge\<close> (lines 181-323). Lines 240-241 copy the list
  \<open>self.knowledge\<close> twice.\<close>

definition add_knowledge :: "cell \<Rightarrow> int \<Rightarrow> ai \<Rightarrow> (exn \<times> ai) + ai" where
  "add_knowledge cell n st =
     (case add_sentence cell n st of
        Inl e \<Rightarrow> Inl e
      | Inr st1 \<Rightarrow> closure_loop (Some (knowledge st1)) (knowledge st1) st1)"

text \<open>
  \<open>MinesweeperAI.make_safe_move\<close> (lines 325-347) and \<open>MinesweeperAI.make_random_move\<close>
  (lines 349-366) read the state and assign nothing. The random numbers are parameters:
  \<open>k\<close> is the number behind \<open>random.choice\<close>, and the list of pairs holds the successive
  results of the two calls of \<open>random.randrange\<close>, which raises \<open>ValueError\<close> on an empty
  range. \<open>make_random_move\<close> returns \<open>None\<close> (outermost) when the draws given are used up
  before the loop has returned.
\<close>

definition make_safe_move :: "nat \<Rightarrow> ai \<Rightarrow> cell option" where
  "make_safe_move k st =
     (if safes st = {} then None
      else (let options = filter (\<lambda>e. e \<notin> moves_made st) (iter_set (safes st))
            in if options = [] then None else Some (options ! (k mod length options))))"

fun make_random_move :: "(int \<times> int) list \<Rightarrow> ai \<Rightarrow> (exn + cell option) option" where
  "make_random_move [] st =
     (if int (card (mines st)) + int (card (safes st)) = height st * width st
        then Some (Inr None)
      else if height st \<le> 0 \<or> width st \<le> 0 then Some (Inl ValueError)
      else None)"
| "make_random_move ((y, x) # draws) st =
     (if int (card (mines st)) + int (card (safes st)) = height st * width st
        then Some (Inr None)
      else if height st \<le> 0 \<or> width st \<le> 0 then Some (Inl ValueError)
      else if (y, x) \<notin> moves_made st \<and> (y, x) \<notin> mines st then Some (Inr (Some (y, x)))
      else make_random_move draws st)"

section \<open>The game and sequences of calls\<close>

text \<open>Class \<open>Minesweeper\<close>: the board is a list of rows of booleans; the fields \<open>mines\<close>
  and \<open>mines_found\<close>, which the player never reads, are left out. \<open>is_mine\<close> is lines
  51-53 and \<open>nearby_mines\<close> lines 55-78; both are read here at cells inside the board
  only (\<open>nearby_mines\<close> tests the bounds itself before it reads the board).\<close>

record minesweeper =
  g_height :: int
  g_width :: int
  board :: "bool list list"

definition in_bounds :: "minesweeper \<Rightarrow> cell \<Rightarrow> bool" where
  "in_bounds g cell = (case cell of (i, j) \<Rightarrow> 0 \<le> i \<and> i < g_height g \<and> 0 \<le> j \<and> j < g_width g)"

definition is_mine :: "minesweeper \<Rightarrow> cell \<Rightarrow> bool" where
  "is_mine g cell = (case cell of (i, j) \<Rightarrow> board g ! nat i ! nat j)"

definition nearby_mines :: "minesweeper \<Rightarrow> cell \<Rightarrow> int" where
  "nearby_mines g cell =
     int (length (filter (\<lambda>(i, j). (i, j) \<noteq> cell \<and>
                                    0 \<le> i \<and> i < g_height g \<and> 0 \<le> j \<and> j < g_width g \<and>
                                    board g ! nat i ! nat j)
                         (block cell)))"

text \<open>The cells of the board that hold a mine.\<close>

definition mine_cells :: "minesweeper \<Rightarrow> cell set" where
  "mine_cells g =
     set (filter (is_mine g) (List.product [0..g_height g - 1] [0..g_width g - 1]))"

text \<open>A call of one of the three operations of the player. An exception that is not
  caught ends the sequence; the state it leaves is kept with it.\<close>

datatype call = AddKnowledge cell int | MakeSafeMove nat | MakeRandomMove "(int \<times> int) list"

fun step :: "call \<Rightarrow> ai \<Rightarrow> (exn \<times> ai) + ai" where
  "step (AddKnowledge c n) st = add_knowledge c n st"
| "step (MakeSafeMove k) st = Inr st"
| "step (MakeRandomMove draws) st =
     (case make_random_move draws st of Some (Inl e) \<Rightarrow> Inl (e, st) | _ \<Rightarrow> Inr st)"

fun run :: "call list \<Rightarrow> ai \<Rightarrow> (exn \<times> ai) + ai" where
  "run [] st = Inr st"
| "run (c # cs) st = (case step c st of Inl e \<Rightarrow> Inl e | Inr st' \<Rightarrow> run cs st')"

text \<open>The state an outcome carries, whether the sequence returned or raised.\<close>

definition final :: "(exn \<times> ai) + ai \<Rightarrow> ai" where
  "final r = (case r of Inl (e, st) \<Rightarrow> st | Inr st \<Rightarrow> st)"

text \<open>A call is truthful for a game when, if it is \<open>add_knowledge\<close>, its cell is on the
  board and free of a mine and its count is the one the game gives for that cell.\<close>

fun truthful :: "minesweeper \<Rightarrow> call \<Rightarrow> bool" where
  "truthful g (AddKnowledge c n) = (in_bounds g c \<and> \<not> is_mine g c \<and> n = nearby_mines g c)"
| "truthful g _ = True"

text \<open>The call the game loop makes when the player reveals the cell \<open>c\<close> of the game
  \<open>g\<close>.\<close>

definition clue :: "minesweeper \<Rightarrow> cell \<Rightarrow> call" where
  "clue g c = AddKnowledge c (nearby_mines g c)"

text \<open>The Chebyshev distance of two cells, in which the specification states the
  neighbours of a cell.\<close>

definition chebyshev :: "cell \<Rightarrow> cell \<Rightarrow> int" where
  "chebyshev a b = max \<bar>fst a - fst b\<bar> \<bar>snd a - snd b\<bar>"

text \<open>Two games of 3 by 3 cells, with two mines each, used as examples below.\<close>

definition game_a :: minesweeper where
  "game_a = \<lparr>g_height = 3, g_width = 3,
              board = [[False, True, False], [False, False, False], [False, True, False]]\<rparr>"

definition game_b :: minesweeper where
  "game_b = \<lparr>g_height = 3, g_width = 3,
              board = [[True, True, False], [False, False, False], [False, False, False]]\<rparr>"

text \<open>The state of the player in the game \<open>game_a\<close> when the cells \<open>(0, 0)\<close> and
  \<open>(2, 2)\<close> have been revealed and the call for \<open>(1, 1)\<close> has reached line 239.\<close>

definition loop_state_a :: ai where
  "loop_state_a =
     \<lparr>height = 3, width = 3, moves_made = {(0, 0), (2, 2), (1, 1)}, mines = {},
      safes = {(0, 0), (2, 2), (1, 1)}, knowledge = [0, 1, 2],
      heap = [\<lparr>cells = {(0, 1), (1, 0)}, count = 1\<rparr>,
              \<lparr>cells = {(1, 2), (2, 1)}, count = 1\<rparr>,
              \<lparr>cells = {(0, 1), (0, 2), (1, 0), (1, 2), (2, 0), (2, 1)}, count = 2\<rparr>]\<rparr>"

text \<open>The number of references in a list whose object equals \<open>v\<close> under
  \<open>Sentence.__eq__\<close>.\<close>

definition occurrences :: "sentence list \<Rightarrow> sentence \<Rightarrow> ref list \<Rightarrow> nat" where
  "occurrences h v rs = length (filter (\<lambda>r. h ! r = v) rs)"

text \<open>A game of 2 by 3 cells with mines at \<open>(0, 0)\<close> and \<open>(0, 2)\<close>, and the state of its
  player when \<open>(0, 1)\<close> and \<open>(1, 0)\<close> have been revealed and the call for \<open>(1, 1)\<close> has
  reached line 239: the sentence at reference 2 is a strict subset of the one at
  reference 3.\<close>

definition game_c :: minesweeper where
  "game_c = \<lparr>g_height = 2, g_width = 3, board = [[True, False, True], [False, False, False]]\<rparr>"

definition loop_state_c :: ai where
  "loop_state_c =
     \<lparr>height = 2, width = 3, moves_made = {(0, 1), (1, 0), (1, 1)}, mines = {},
      safes = {(0, 1), (1, 0), (1, 1)}, knowledge = [1, 2, 3],
      heap = [\<lparr>cells = {(0, 0), (0, 2), (1, 1), (1, 2)}, count = 2\<rparr>,
              \<lparr>cells = {(0, 0)}, count = 1\<rparr>,
              \<lparr>cells = {(0, 2), (1, 2)}, count = 1\<rparr>,
              \<lparr>cells = {(0, 0), (0, 2), (1, 2)}, count = 2\<rparr>]\<rparr>"

text \<open>The two sentences \<open>{A, B, C} = 1\<close> and \<open>{A, B} = 1\<close> of the example of the
  specification, on the cells of a board of one row.\<close>

definition abc_state :: ai where
  "abc_state =
     \<lparr>height = 1, width = 3, moves_made = {}, mines = {}, safes = {}, knowledge = [0, 1],
      heap = [\<lparr>cells = {(0, 0), (0, 1), (0, 2)}, count = 1\<rparr>,
              \<lparr>cells = {(0, 0), (0, 1)}, count = 1\<rparr>]\<rparr>"

text \<open>A sentence holds of a set of mines when it has finitely many cells and its count
  is the number of its cells that are mines. The state of a player is sound for a game
  when it has the size of the game, every sentence object holds of the mines of the game,
  every cell of \<open>mines\<close> is a mine, no cell of \<open>safes\<close> is one, and \<open>knowledge\<close> refers to
  objects that exist.\<close>

definition holds :: "cell set \<Rightarrow> sentence \<Rightarrow> bool" where
  "holds M s \<longleftrightarrow> finite (cells s) \<and> count s = int (card (cells s \<inter> M))"

definition sound :: "minesweeper \<Rightarrow> ai \<Rightarrow> bool" where
  "sound g st \<longleftrightarrow>
     height st = g_height g \<and> width st = g_width g \<and>
     list_all (holds (mine_cells g)) (heap st) \<and>
     mines st \<subseteq> mine_cells g \<and> safes st \<inter> mine_cells g = {} \<and>
     list_all (\<lambda>r. r < length (heap st)) (knowledge st)"

section \<open>Basic facts\<close>

lemma mine_cells_iff: "c \<in> mine_cells g \<longleftrightarrow> in_bounds g c \<and> is_mine g c"
  by (cases c) (auto simp: mine_cells_def in_bounds_def)

lemma iter_set_subset: "set (iter_set S) \<subseteq> S"
  by (cases "finite S") (simp_all add: iter_set_def)

lemma iter_set_finite: "finite S \<Longrightarrow> set (iter_set S) = S"
  by (simp add: iter_set_def)

lemma distinct_iter_set: "distinct (iter_set S)"
  by (simp add: iter_set_def)

lemma fold_heap_mark_safe_fields:
  "height (fold (heap_mark_safe c) rs st) = height st \<and>
   width (fold (heap_mark_safe c) rs st) = width st \<and>
   moves_made (fold (heap_mark_safe c) rs st) = moves_made st \<and>
   mines (fold (heap_mark_safe c) rs st) = mines st \<and>
   safes (fold (heap_mark_safe c) rs st) = safes st \<and>
   knowledge (fold (heap_mark_safe c) rs st) = knowledge st \<and>
   length (heap (fold (heap_mark_safe c) rs st)) = length (heap st)"
  by (induction rs arbitrary: st) (simp_all add: heap_mark_safe_def)

lemma fold_heap_mark_mine_fields:
  "height (fold (heap_mark_mine c) rs st) = height st \<and>
   width (fold (heap_mark_mine c) rs st) = width st \<and>
   moves_made (fold (heap_mark_mine c) rs st) = moves_made st \<and>
   mines (fold (heap_mark_mine c) rs st) = mines st \<and>
   safes (fold (heap_mark_mine c) rs st) = safes st \<and>
   knowledge (fold (heap_mark_mine c) rs st) = knowledge st \<and>
   length (heap (fold (heap_mark_mine c) rs st)) = length (heap st)"
  by (induction rs arbitrary: st) (simp_all add: heap_mark_mine_def)

lemma mark_safe_fields [simp]:
  "height (mark_safe c st) = height st"
  "width (mark_safe c st) = width st"
  "moves_made (mark_safe c st) = moves_made st"
  "mines (mark_safe c st) = mines st"
  "safes (mark_safe c st) = insert c (safes st)"
  "knowledge (mark_safe c st) = knowledge st"
  "length (heap (mark_safe c st)) = length (heap st)"
  by (simp_all add: mark_safe_def fold_heap_mark_safe_fields)

lemma mark_mine_fields [simp]:
  "height (mark_mine c st) = height st"
  "width (mark_mine c st) = width st"
  "moves_made (mark_mine c st) = moves_made st"
  "mines (mark_mine c st) = insert c (mines st)"
  "safes (mark_mine c st) = safes st"
  "knowledge (mark_mine c st) = knowledge st"
  "length (heap (mark_mine c st)) = length (heap st)"
  by (simp_all add: mark_mine_def fold_heap_mark_mine_fields)

lemma fold_heap_mark_safe_counts:
  "map count (heap (fold (heap_mark_safe c) rs st)) = map count (heap st)"
proof (induction rs arbitrary: st)
  case Nil
  show ?case by simp
next
  case (Cons r rs)
  have "map count (heap (heap_mark_safe c r st)) = map count (heap st)"
  proof (rule nth_equalityI)
    show "length (map count (heap (heap_mark_safe c r st))) = length (map count (heap st))"
      by (simp add: heap_mark_safe_def)
  next
    fix i assume "i < length (map count (heap (heap_mark_safe c r st)))"
    then show "map count (heap (heap_mark_safe c r st)) ! i = map count (heap st) ! i"
      by (cases "r = i") (simp_all add: heap_mark_safe_def sentence_mark_safe_def)
  qed
  with Cons show ?case by simp
qed

lemma mark_safe_counts: "map count (heap (mark_safe c st)) = map count (heap st)"
  by (simp add: mark_safe_def fold_heap_mark_safe_counts)

subsection \<open>The new sentence\<close>

lemma set_block: "set (block (i, j)) = {(x, y). \<bar>x - i\<bar> \<le> 1 \<and> \<bar>y - j\<bar> \<le> 1}"
  by (auto simp: block_def)

lemma distinct_block: "distinct (block cell)"
  by (cases cell) (simp add: block_def distinct_product)

lemma neighbors_of_chebyshev:
  "neighbors_of st cell = {c. 0 \<le> fst c \<and> fst c < height st \<and> 0 \<le> snd c \<and> snd c < width st
                              \<and> chebyshev c cell = 1}"
  by (cases cell) (auto simp: neighbors_of_def set_block chebyshev_def max_def split: if_splits)

lemma finite_neighbors_of [simp]: "finite (neighbors_of st cell)"
  by (simp add: neighbors_of_def)

lemma fold_repeat_step:
  "distinct xs \<Longrightarrow>
   fold (repeat_step st) xs (rep, n) =
     (rep \<union> (set xs \<inter> (safes st \<union> mines st)), n - int (card (set xs \<inter> (mines st - safes st))))"
proof (induction xs arbitrary: rep n)
  case Nil
  show ?case by simp
next
  case (Cons x xs)
  have fin: "finite (set xs \<inter> (mines st - safes st))" by simp
  have notin: "x \<notin> set xs \<inter> (mines st - safes st)" using Cons.prems by simp
  have ins: "x \<in> mines st - safes st \<Longrightarrow>
      set (x # xs) \<inter> (mines st - safes st) = insert x (set xs \<inter> (mines st - safes st))"
    by auto
  have out: "x \<notin> mines st - safes st \<Longrightarrow>
      set (x # xs) \<inter> (mines st - safes st) = set xs \<inter> (mines st - safes st)"
    by auto
  from Cons show ?case
    using fin notin ins out
    by (auto simp: card_insert_disjoint simp del: Int_insert_left Int_Diff)
qed

lemma set_remove_each_subset:
  "distinct xs \<Longrightarrow> set xs \<subseteq> S \<Longrightarrow> set_remove_each xs S = Inr (S - set xs)"
proof (induction xs arbitrary: S)
  case Nil
  show ?case by simp
next
  case (Cons x xs)
  then have "set_remove_each xs (S - {x}) = Inr (S - {x} - set xs)"
    by (intro Cons.IH) auto
  moreover have "S - {x} - set xs = S - set (x # xs)" by auto
  ultimately show ?case using Cons.prems by simp
qed

text \<open>Lines 196-237 never raise, and this is the state they leave.\<close>

lemma add_sentence_result:
  "add_sentence cell n st =
     Inr ((mark_safe cell (st\<lparr>moves_made := insert cell (moves_made st)\<rparr>))
            \<lparr>heap := heap (mark_safe cell (st\<lparr>moves_made := insert cell (moves_made st)\<rparr>)) @
                     [\<lparr>cells = neighbors_of st cell - insert cell (safes st) - mines st,
                       count = n - int (card (neighbors_of st cell \<inter> (mines st - insert cell (safes st))))\<rparr>],
             knowledge := knowledge st @ [length (heap st)]\<rparr>)"
proof -
  define st1 where "st1 = mark_safe cell (st\<lparr>moves_made := insert cell (moves_made st)\<rparr>)"
  define N where "N = neighbors_of st1 cell"
  have N: "N = neighbors_of st cell"
    by (simp add: N_def st1_def neighbors_of_def)
  have f1: "safes st1 = insert cell (safes st)" "mines st1 = mines st"
    "knowledge st1 = knowledge st" "length (heap st1) = length (heap st)"
    by (simp_all add: st1_def)
  have finN: "finite N" by (simp add: N)
  have fold: "fold (repeat_step st1) (iter_set N) ({}, n) =
      (N \<inter> (safes st1 \<union> mines st1), n - int (card (N \<inter> (mines st1 - safes st1))))"
    using fold_repeat_step [OF distinct_iter_set, of st1 N "{}" n] finN
    by (simp add: iter_set_finite)
  have finR: "finite (N \<inter> (safes st1 \<union> mines st1))" using finN by simp
  have rem: "set_remove_each (iter_set (N \<inter> (safes st1 \<union> mines st1))) N
              = Inr (N - (N \<inter> (safes st1 \<union> mines st1)))"
    using set_remove_each_subset [OF distinct_iter_set, of "N \<inter> (safes st1 \<union> mines st1)" N] finR
    by (simp add: iter_set_finite)
  have eq: "N - (N \<inter> (safes st1 \<union> mines st1)) = N - insert cell (safes st) - mines st"
    by (auto simp: f1)
  have "add_sentence cell n st =
      Inr (st1\<lparr>heap := heap st1 @
                    [\<lparr>cells = N - insert cell (safes st) - mines st,
                      count = n - int (card (N \<inter> (mines st - insert cell (safes st))))\<rparr>],
               knowledge := knowledge st @ [length (heap st)]\<rparr>)"
    unfolding add_sentence_def Let_def st1_def [symmetric] N_def [symmetric]
    by (simp only: fold prod.case rem sum.case eq) (simp add: alloc_def f1)
  then show ?thesis
    unfolding N st1_def .
qed

subsection \<open>The order of iteration over a set\<close>

text \<open>The loops of \<open>mark_safe\<close> and \<open>mark_mine\<close> over \<open>self.knowledge\<close> apply the operation of
  the sentence once to every object the list refers to, however often it refers to it.\<close>

lemma fold_heap_update:
  assumes idem: "\<And>s. f (f s) = f s"
    and step: "\<And>r st. heap (u r st) = (heap st)[r := f (heap st ! r)]"
  shows "heap (fold u rs st) =
           map (\<lambda>i. if i \<in> set rs then f (heap st ! i) else heap st ! i) [0..<length (heap st)]"
proof (induction rs arbitrary: st)
  case Nil
  show ?case by (simp add: map_nth)
next
  case (Cons r rs)
  show ?case
  proof (rule nth_equalityI)
    show "length (heap (fold u (r # rs) st)) =
          length (map (\<lambda>i. if i \<in> set (r # rs) then f (heap st ! i) else heap st ! i)
                      [0..<length (heap st)])"
      by (simp add: Cons.IH step)
  next
    fix i assume "i < length (heap (fold u (r # rs) st))"
    then have i: "i < length (heap st)"
      by (simp add: Cons.IH step)
    from i show "heap (fold u (r # rs) st) ! i =
          map (\<lambda>i. if i \<in> set (r # rs) then f (heap st ! i) else heap st ! i)
              [0..<length (heap st)] ! i"
      by (cases "i = r") (simp_all add: Cons.IH step idem)
  qed
qed

lemma fold_heap_mark_safe_heap:
  "heap (fold (heap_mark_safe c) rs st) =
     map (\<lambda>i. if i \<in> set rs then sentence_mark_safe c (heap st ! i) else heap st ! i)
         [0..<length (heap st)]"
  by (rule fold_heap_update) (simp_all add: sentence_mark_safe_def heap_mark_safe_def)

lemma fold_heap_mark_mine_heap:
  "heap (fold (heap_mark_mine c) rs st) =
     map (\<lambda>i. if i \<in> set rs then sentence_mark_mine c (heap st ! i) else heap st ! i)
         [0..<length (heap st)]"
  by (rule fold_heap_update) (simp_all add: sentence_mark_mine_def heap_mark_mine_def)

text \<open>Marking the cells of a list one after the other removes them all from every
  sentence of \<open>self.knowledge\<close> and, for mines, takes the number of cells removed from the
  count. The result depends on the set of the cells only, not on their order.\<close>

lemma reduce_safe_step:
  "(sentence_mark_safe c s)\<lparr>cells := cells (sentence_mark_safe c s) - X\<rparr>
     = s\<lparr>cells := cells s - insert c X\<rparr>"
proof -
  have "cells s - {c} - X = cells s - insert c X" by auto
  moreover have "c \<notin> cells s \<Longrightarrow> cells s - X = cells s - insert c X" by auto
  ultimately show ?thesis by (simp add: sentence_mark_safe_def)
qed

lemma reduce_mine_step:
  assumes fin: "finite X"
  shows "(sentence_mark_mine c s)\<lparr>cells := cells (sentence_mark_mine c s) - X,
            count := count (sentence_mark_mine c s) - int (card (cells (sentence_mark_mine c s) \<inter> X))\<rparr>
         = s\<lparr>cells := cells s - insert c X,
              count := count s - int (card (cells s \<inter> insert c X))\<rparr>"
proof (cases "c \<in> cells s")
  case False
  then have "cells s \<inter> insert c X = cells s \<inter> X" "cells s - X = cells s - insert c X" by auto
  with False show ?thesis by (simp add: sentence_mark_mine_def)
next
  case True
  have finI: "finite (cells s \<inter> X)" using fin by simp
  have c1: "cells s - {c} - X = cells s - insert c X" by auto
  show ?thesis
  proof (cases "c \<in> X")
    case in_X: True
    with True have e1: "cells s \<inter> insert c X = cells s \<inter> X"
      and e2: "(cells s - {c}) \<inter> X = (cells s \<inter> X) - {c}"
      and e3: "c \<in> cells s \<inter> X" by auto
    from finI e3 have "card (cells s \<inter> X) > 0" by (auto simp: card_gt_0_iff)
    then have "int (card ((cells s \<inter> X) - {c})) = int (card (cells s \<inter> X)) - 1"
      using finI e3 by (simp add: card_Diff_singleton of_nat_diff)
    with True show ?thesis
      by (simp add: sentence_mark_mine_def c1 e1 e2)
  next
    case out: False
    with True have e1: "cells s \<inter> insert c X = insert c (cells s \<inter> X)"
      and e2: "(cells s - {c}) \<inter> X = cells s \<inter> X"
      and e3: "c \<notin> cells s \<inter> X" by auto
    from finI e3 have "card (insert c (cells s \<inter> X)) = Suc (card (cells s \<inter> X))"
      by simp
    with True show ?thesis
      by (simp add: sentence_mark_mine_def c1 e1 e2)
  qed
qed

lemma fold_mark_safe_heap:
  "fold mark_safe xs st =
     st\<lparr>safes := safes st \<union> set xs,
        heap := map (\<lambda>i. if i \<in> set (knowledge st)
                          then (heap st ! i)\<lparr>cells := cells (heap st ! i) - set xs\<rparr>
                          else heap st ! i)
                    [0..<length (heap st)]\<rparr>"
proof (induction xs arbitrary: st)
  case Nil
  show ?case by (simp add: map_nth cong: if_cong)
next
  case (Cons c xs)
  have pw: "heap (mark_safe c st) ! i =
      (if i \<in> set (knowledge st) then sentence_mark_safe c (heap st ! i) else heap st ! i)"
    if "i < length (heap st)" for i
    using that by (simp add: mark_safe_def fold_heap_mark_safe_heap)
  have "fold mark_safe (c # xs) st = fold mark_safe xs (mark_safe c st)" by simp
  also have "\<dots> = st\<lparr>safes := safes st \<union> set (c # xs),
        heap := map (\<lambda>i. if i \<in> set (knowledge st)
                          then (heap st ! i)\<lparr>cells := cells (heap st ! i) - set (c # xs)\<rparr>
                          else heap st ! i)
                    [0..<length (heap st)]\<rparr>"
    unfolding Cons.IH
    by (rule ai.equality) (simp_all add: pw reduce_safe_step)
  finally show ?case .
qed

lemma fold_mark_mine_heap:
  "fold mark_mine xs st =
     st\<lparr>mines := mines st \<union> set xs,
        heap := map (\<lambda>i. if i \<in> set (knowledge st)
                          then (heap st ! i)\<lparr>cells := cells (heap st ! i) - set xs,
                                             count := count (heap st ! i)
                                                        - int (card (cells (heap st ! i) \<inter> set xs))\<rparr>
                          else heap st ! i)
                    [0..<length (heap st)]\<rparr>"
proof (induction xs arbitrary: st)
  case Nil
  show ?case by (simp add: map_nth cong: if_cong)
next
  case (Cons c xs)
  have pw: "heap (mark_mine c st) ! i =
      (if i \<in> set (knowledge st) then sentence_mark_mine c (heap st ! i) else heap st ! i)"
    if "i < length (heap st)" for i
    using that by (simp add: mark_mine_def fold_heap_mark_mine_heap)
  have "fold mark_mine (c # xs) st = fold mark_mine xs (mark_mine c st)" by simp
  also have "\<dots> = st\<lparr>mines := mines st \<union> set (c # xs),
        heap := map (\<lambda>i. if i \<in> set (knowledge st)
                          then (heap st ! i)\<lparr>cells := cells (heap st ! i) - set (c # xs),
                                             count := count (heap st ! i)
                                                - int (card (cells (heap st ! i) \<inter> set (c # xs)))\<rparr>
                          else heap st ! i)
                    [0..<length (heap st)]\<rparr>"
    unfolding Cons.IH
    by (rule ai.equality) (simp_all add: pw reduce_mine_step)
  finally show ?case .
qed

lemma fold_mark_order:
  "set xs = set ys \<Longrightarrow> fold mark_safe xs st = fold mark_safe ys st"
  "set xs = set ys \<Longrightarrow> fold mark_mine xs st = fold mark_mine ys st"
  by (simp_all add: fold_mark_safe_heap fold_mark_mine_heap)


section \<open>The claims\<close>

subsection \<open>Sentences\<close>

text \<open>
  Claim C6. For every sentence: when \<open>count\<close> is the number of cells, \<open>known_mines\<close> returns
  the cell set, and otherwise the empty set; when \<open>count\<close> is 0, \<open>known_safes\<close> returns the
  cell set, and otherwise the empty set.
\<close>

theorem known_mines_known_safes:
  "(count s = int (card (cells s)) \<longrightarrow> known_mines s = cells s) \<and>
   (count s \<noteq> int (card (cells s)) \<longrightarrow> known_mines s = {}) \<and>
   (count s = 0 \<longrightarrow> known_safes s = cells s) \<and>
   (count s \<noteq> 0 \<longrightarrow> known_safes s = {})"
  by (auto simp: known_mines_def known_safes_def)

theorem known_mines_known_safes_witness:
  "known_mines \<lparr>cells = {(0, 0), (0, 1)}, count = 2\<rparr> = {(0, 0), (0, 1)} \<and>
   known_safes \<lparr>cells = {(0, 0), (0, 1)}, count = 2\<rparr> = {} \<and>
   known_safes \<lparr>cells = {(0, 0), (0, 1)}, count = 0\<rparr> = {(0, 0), (0, 1)} \<and>
   known_mines \<lparr>cells = {(0, 0), (0, 1)}, count = 0\<rparr> = {}"
  using known_mines_known_safes [of "\<lparr>cells = {(0, 0), (0, 1)}, count = 2\<rparr>"]
        known_mines_known_safes [of "\<lparr>cells = {(0, 0), (0, 1)}, count = 0\<rparr>"]
  by simp

text \<open>
  Claim C9. Marking a cell in a sentence twice is the same as marking it once, for
  \<open>Sentence.mark_mine\<close> and for \<open>Sentence.mark_safe\<close>; marking a cell that is not in the
  sentence changes neither the cells nor the count. The functions are total, so no call
  raises.
\<close>

theorem sentence_mark_idempotent:
  "sentence_mark_mine c (sentence_mark_mine c s) = sentence_mark_mine c s \<and>
   sentence_mark_safe c (sentence_mark_safe c s) = sentence_mark_safe c s \<and>
   (c \<notin> cells s \<longrightarrow> sentence_mark_mine c s = s \<and> sentence_mark_safe c s = s)"
  by (simp add: sentence_mark_mine_def sentence_mark_safe_def)

theorem sentence_mark_idempotent_witness:
  "(0, 2) \<notin> cells \<lparr>cells = {(0, 0), (0, 1)}, count = 1\<rparr> \<and>
   sentence_mark_mine (0, 2) \<lparr>cells = {(0, 0), (0, 1)}, count = 1\<rparr>
     = \<lparr>cells = {(0, 0), (0, 1)}, count = 1\<rparr> \<and>
   sentence_mark_safe (0, 2) \<lparr>cells = {(0, 0), (0, 1)}, count = 1\<rparr>
     = \<lparr>cells = {(0, 0), (0, 1)}, count = 1\<rparr> \<and>
   sentence_mark_mine (0, 1) (sentence_mark_mine (0, 1) \<lparr>cells = {(0, 0), (0, 1)}, count = 1\<rparr>)
     = \<lparr>cells = {(0, 0)}, count = 0\<rparr>"
  using sentence_mark_idempotent [of "(0, 2)" "\<lparr>cells = {(0, 0), (0, 1)}, count = 1\<rparr>"]
        sentence_mark_idempotent [of "(0, 1)" "\<lparr>cells = {(0, 0), (0, 1)}, count = 1\<rparr>"]
  by (auto simp: sentence_mark_mine_def)

subsection \<open>Marking a cell in the player\<close>

text \<open>
  Claim C10. \<open>MinesweeperAI.mark_mine\<close> adds the cell to \<open>mines\<close> and leaves \<open>safes\<close>,
  \<open>moves_made\<close>, the list \<open>knowledge\<close>, the size of the board and the number of sentence
  objects as they are; \<open>MinesweeperAI.mark_safe\<close> adds the cell to \<open>safes\<close> and leaves
  \<open>mines\<close>, \<open>moves_made\<close>, the list \<open>knowledge\<close>, the size of the board and the count of
  every sentence object as they are.
\<close>

theorem mark_frame:
  "safes (mark_mine c st) = safes st \<and> moves_made (mark_mine c st) = moves_made st \<and>
   mines (mark_mine c st) = insert c (mines st) \<and>
   knowledge (mark_mine c st) = knowledge st \<and>
   length (heap (mark_mine c st)) = length (heap st) \<and>
   height (mark_mine c st) = height st \<and> width (mark_mine c st) = width st \<and>
   mines (mark_safe c st) = mines st \<and> moves_made (mark_safe c st) = moves_made st \<and>
   safes (mark_safe c st) = insert c (safes st) \<and>
   knowledge (mark_safe c st) = knowledge st \<and>
   length (heap (mark_safe c st)) = length (heap st) \<and>
   height (mark_safe c st) = height st \<and> width (mark_safe c st) = width st \<and>
   map count (heap (mark_safe c st)) = map count (heap st)"
  by (simp add: mark_safe_counts)


subsection \<open>The new sentence of \<open>add_knowledge\<close>\<close>

text \<open>
  Claim C5, as the code has it. Lines 196-237 of \<open>add_knowledge\<close> never raise. They build
  the new sentence from the cells of the board at Chebyshev distance 1 from \<open>cell\<close>:
  its cells are those neighbours that are neither in \<open>safes\<close> nor in \<open>mines\<close>, and its count
  is \<open>count\<close> less the number of neighbours that are in \<open>mines\<close> and not in \<open>safes\<close>. The
  sentence is appended to \<open>knowledge\<close> in every case, also when it has no cell.
\<close>

theorem add_sentence_appends:
  "\<exists>st'. add_sentence cell n st = Inr st' \<and>
         knowledge st' = knowledge st @ [length (heap st)] \<and>
         length (heap st') = Suc (length (heap st)) \<and>
         heap st' ! length (heap st) =
           \<lparr>cells = {c. 0 \<le> fst c \<and> fst c < height st \<and> 0 \<le> snd c \<and> snd c < width st
                         \<and> chebyshev c cell = 1} - safes st - mines st,
            count = n - int (card ({c. 0 \<le> fst c \<and> fst c < height st \<and>
                                       0 \<le> snd c \<and> snd c < width st \<and> chebyshev c cell = 1}
                                   \<inter> (mines st - safes st)))\<rparr>"
proof -
  have 1: "neighbors_of st cell - insert cell (safes st) = neighbors_of st cell - safes st"
    by (auto simp: neighbors_of_chebyshev chebyshev_def)
  have 2: "neighbors_of st cell \<inter> (mines st - insert cell (safes st))
             = neighbors_of st cell \<inter> (mines st - safes st)"
    by (auto simp: neighbors_of_chebyshev chebyshev_def)
  show ?thesis
    unfolding add_sentence_result 1 2
    by (simp add: nth_append neighbors_of_chebyshev)
qed

text \<open>
  Claim C5 as stated fails: on a board of one cell the new sentence has no cell, and
  line 237 appends it all the same. With the count 0 the loop then removes it as
  resolved; with any other count it is still in \<open>knowledge\<close> when \<open>add_knowledge\<close> returns.
\<close>

theorem add_sentence_appends_empty:
  "add_sentence (0, 0) 0 (new_ai 1 1) =
     Inr \<lparr>height = 1, width = 1, moves_made = {(0, 0)}, mines = {}, safes = {(0, 0)},
          knowledge = [0], heap = [\<lparr>cells = {}, count = 0\<rparr>]\<rparr> \<and>
   add_knowledge (0, 0) 1 (new_ai 1 1) =
     Inr \<lparr>height = 1, width = 1, moves_made = {(0, 0)}, mines = {}, safes = {(0, 0)},
          knowledge = [0], heap = [\<lparr>cells = {}, count = 1\<rparr>]\<rparr>"
  by code_simp

subsection \<open>Exceptions\<close>

text \<open>
  Claim C3 fails on the code. In the game \<open>game_a\<close> (mines at \<open>(0, 1)\<close> and \<open>(2, 1)\<close>) the
  player reveals \<open>(0, 0)\<close>, \<open>(2, 2)\<close> and \<open>(1, 1)\<close>, each free of a mine, each with the count
  the game gives. In the third call the sentence of \<open>(1, 1)\<close> has two strict subsets in
  \<open>knowledge_modified\<close>, so it is put into \<open>old_sentences\<close> twice, and the second
  \<open>knowledge_modified.remove(old)\<close> of line 310 raises \<open>ValueError\<close>.
\<close>

theorem truthful_play_raises:
  "list_all (truthful game_a) (map (clue game_a) [(0, 0), (2, 2), (1, 1)]) \<and>
   map (clue game_a) [(0, 0), (2, 2), (1, 1)]
     = [AddKnowledge (0, 0) 1, AddKnowledge (2, 2) 1, AddKnowledge (1, 1) 2] \<and>
   run (map (clue game_a) [(0, 0), (2, 2), (1, 1)]) (new_ai 3 3) =
     Inl (ValueError,
          \<lparr>height = 3, width = 3, moves_made = {(0, 0), (2, 2), (1, 1)}, mines = {},
           safes = {(0, 0), (2, 2), (1, 1)}, knowledge = [0, 1, 2],
           heap = [\<lparr>cells = {(0, 1), (1, 0)}, count = 1\<rparr>,
                   \<lparr>cells = {(1, 2), (2, 1)}, count = 1\<rparr>,
                   \<lparr>cells = {(0, 1), (0, 2), (1, 0), (1, 2), (2, 0), (2, 1)}, count = 2\<rparr>,
                   \<lparr>cells = {(0, 2), (1, 2), (2, 0), (2, 1)}, count = 1\<rparr>,
                   \<lparr>cells = {(0, 1), (0, 2), (1, 0), (2, 0)}, count = 1\<rparr>]\<rparr>)"
  by code_simp

subsection \<open>Termination of the loop\<close>

text \<open>The loop takes at most two passes: a first pass that does not stop makes
  \<open>knowledge_original\<close> the list object \<open>knowledge_modified\<close> itself (line 321), and the
  comparison of line 317 then holds in the second pass whatever that pass has done.\<close>

lemma closure_loop_two_passes:
  "closure_loop ko km st =
     (case iteration ko km st of
        Inl e \<Rightarrow> Inl e
      | Inr (fixed, km', st') \<Rightarrow>
          if fixed then Inr (st'\<lparr>knowledge := km'\<rparr>)
          else (case iteration None km' st' of
                  Inl e \<Rightarrow> Inl e
                | Inr (fixed', km'', st'') \<Rightarrow> Inr (st''\<lparr>knowledge := km''\<rparr>)))"
proof (cases "iteration ko km st")
  case (Inl e)
  then show ?thesis by (subst closure_loop.simps) simp
next
  case (Inr x)
  obtain fixed km' st' where x: "x = (fixed, km', st')" by (cases x) auto
  show ?thesis
  proof (cases fixed)
    case True
    with Inr x show ?thesis by (subst closure_loop.simps) simp
  next
    case False
    have 2: "closure_loop None km' st' =
        (case iteration None km' st' of
           Inl e \<Rightarrow> Inl e
         | Inr (fixed', km'', st'') \<Rightarrow> Inr (st''\<lparr>knowledge := km''\<rparr>))"
      by (subst closure_loop.simps)
         (auto split: sum.splits dest: iteration_aliased)
    from Inr x False show ?thesis
      by (subst closure_loop.simps) (simp add: 2)
  qed
qed

text \<open>
  Claim C4 fails on the code, by the defect of claim C3: in the third call of the play
  above the first pass of the loop does not reach the comparison of line 317. It draws
  no direct conclusion, and its removal of the old sentences raises \<open>ValueError\<close>, so the
  loop is left by the exception and not by \<open>break\<close>.
\<close>

theorem loop_left_by_exception:
  "add_sentence (1, 1) 2 (final (run (map (clue game_a) [(0, 0), (2, 2)]) (new_ai 3 3)))
     = Inr loop_state_a \<and>
   resolve (Some (knowledge loop_state_a)) (knowledge loop_state_a) loop_state_a
     = Inr ([0, 1, 2], loop_state_a) \<and>
   subsume (Some (knowledge loop_state_a)) [0, 1, 2] loop_state_a
     = Inl (ValueError,
            loop_state_a\<lparr>heap := heap loop_state_a @
              [\<lparr>cells = {(0, 2), (1, 2), (2, 0), (2, 1)}, count = 1\<rparr>,
               \<lparr>cells = {(0, 1), (0, 2), (1, 0), (2, 0)}, count = 1\<rparr>]\<rparr>) \<and>
   closure_loop (Some (knowledge loop_state_a)) (knowledge loop_state_a) loop_state_a
     = Inl (ValueError,
            loop_state_a\<lparr>heap := heap loop_state_a @
              [\<lparr>cells = {(0, 2), (1, 2), (2, 0), (2, 1)}, count = 1\<rparr>,
               \<lparr>cells = {(0, 1), (0, 2), (1, 0), (2, 0)}, count = 1\<rparr>]\<rparr>)"
  by code_simp

subsection \<open>Marked cells in the knowledge\<close>

text \<open>
  Claim C2 fails on the code. In the game \<open>game_b\<close> (mines at \<open>(0, 0)\<close> and \<open>(0, 1)\<close>) the
  player reveals \<open>(0, 2)\<close>, \<open>(1, 0)\<close> and \<open>(1, 2)\<close>. The first pass of the third call derives
  two sentences, which are in \<open>knowledge_modified\<close> and not in \<open>self.knowledge\<close>. The second
  pass resolves one of them and marks \<open>(2, 1)\<close> and \<open>(2, 2)\<close> safe; \<open>mark_safe\<close> loops
  over \<open>self.knowledge\<close> and does not reach the other one. The call returns with
  \<open>(2, 1)\<close> in \<open>safes\<close> and in the cells of the sentence at reference 3 of \<open>knowledge\<close>.
\<close>

theorem marked_cell_left_in_sentence:
  "list_all (truthful game_b) (map (clue game_b) [(0, 2), (1, 0), (1, 2)]) \<and>
   map (clue game_b) [(0, 2), (1, 0), (1, 2)]
     = [AddKnowledge (0, 2) 1, AddKnowledge (1, 0) 2, AddKnowledge (1, 2) 1] \<and>
   run (map (clue game_b) [(0, 2), (1, 0), (1, 2)]) (new_ai 3 3) =
     Inr \<lparr>height = 3, width = 3, moves_made = {(0, 2), (1, 0), (1, 2)}, mines = {},
          safes = {(0, 2), (1, 0), (1, 2), (2, 1), (2, 2)}, knowledge = [0, 3],
          heap = [\<lparr>cells = {(0, 1), (1, 1)}, count = 1\<rparr>,
                  \<lparr>cells = {(0, 0), (0, 1), (1, 1), (2, 0)}, count = 2\<rparr>,
                  \<lparr>cells = {(0, 1), (1, 1)}, count = 1\<rparr>,
                  \<lparr>cells = {(0, 0), (2, 0), (2, 1)}, count = 1\<rparr>,
                  \<lparr>cells = {(2, 1), (2, 2)}, count = 0\<rparr>]\<rparr>"
  by code_simp


subsection \<open>Growth of the sets of mines and safes\<close>

lemma fold_mark_safe_fields:
  "height (fold mark_safe xs st) = height st \<and>
   width (fold mark_safe xs st) = width st \<and>
   moves_made (fold mark_safe xs st) = moves_made st \<and>
   mines (fold mark_safe xs st) = mines st \<and>
   safes (fold mark_safe xs st) = safes st \<union> set xs \<and>
   knowledge (fold mark_safe xs st) = knowledge st \<and>
   length (heap (fold mark_safe xs st)) = length (heap st)"
  by (induction xs arbitrary: st) simp_all

lemma fold_mark_mine_fields:
  "height (fold mark_mine xs st) = height st \<and>
   width (fold mark_mine xs st) = width st \<and>
   moves_made (fold mark_mine xs st) = moves_made st \<and>
   mines (fold mark_mine xs st) = mines st \<union> set xs \<and>
   safes (fold mark_mine xs st) = safes st \<and>
   knowledge (fold mark_mine xs st) = knowledge st \<and>
   length (heap (fold mark_mine xs st)) = length (heap st)"
  by (induction xs arbitrary: st) simp_all

text \<open>What a pass leaves of the fields other than the heap, whether it raises or not.\<close>

lemma resolve_fields:
  assumes "resolve ko km st = Inl (e, s) \<or> resolve ko km st = Inr (km1, s)"
  shows "mines st \<subseteq> mines s \<and> safes st \<subseteq> safes s \<and> moves_made s = moves_made st \<and>
         height s = height st \<and> width s = width st \<and> knowledge s = knowledge st \<and>
         length (heap s) = length (heap st)"
  using assms
  by (auto simp: resolve_def Let_def fold_mark_safe_fields fold_mark_mine_fields
           split: prod.splits option.splits)

lemma subsume_fields:
  assumes "subsume ko km st = Inl (e, s) \<or> subsume ko km st = Inr (fixed, km', s)"
  shows "mines s = mines st \<and> safes s = safes st \<and> moves_made s = moves_made st \<and>
         height s = height st \<and> width s = width st \<and> knowledge s = knowledge st"
  using assms
  by (auto simp: subsume_def Let_def split: option.splits)

lemma iteration_fields:
  assumes "iteration ko km st = Inl (e, s) \<or> iteration ko km st = Inr (fixed, km', s)"
  shows "mines st \<subseteq> mines s \<and> safes st \<subseteq> safes s \<and> moves_made s = moves_made st \<and>
         height s = height st \<and> width s = width st \<and> knowledge s = knowledge st"
proof (cases "resolve ko km st")
  case (Inl x)
  with assms have "resolve ko km st = Inl (e, s)"
    by (auto simp: iteration_def)
  then show ?thesis using resolve_fields [of ko km st e s] by simp
next
  case (Inr y)
  obtain km1 st2 where y: "y = (km1, st2)" by (cases y)
  from Inr y have r: "resolve ko km st = Inr (km1, st2)" by simp
  with assms have "subsume ko km1 st2 = Inl (e, s) \<or> subsume ko km1 st2 = Inr (fixed, km', s)"
    by (simp add: iteration_def)
  from subsume_fields [OF this] resolve_fields [of ko km st undefined st2 km1] r
  show ?thesis by auto
qed

text \<open>A property of the state that every pass keeps holds of the state the loop leaves.\<close>

lemma closure_loop_final:
  assumes step: "\<And>ko km st e fixed km' s. I ko km st \<Longrightarrow>
            (iteration ko km st = Inl (e, s) \<longrightarrow> Q s) \<and>
            (iteration ko km st = Inr (fixed, km', s) \<longrightarrow> Q (s\<lparr>knowledge := km'\<rparr>) \<and> I None km' s)"
    and init: "I ko km st"
  shows "Q (final (closure_loop ko km st))"
proof (cases "iteration ko km st")
  case (Inl x)
  obtain e s where x: "x = (e, s)" by (cases x)
  from step [where ko = ko and km = km and st = st and e = e and s = s] init Inl x have "Q s" by simp
  with Inl x show ?thesis
    by (simp add: closure_loop_two_passes final_def)
next
  case (Inr y)
  obtain fixed km' s where y: "y = (fixed, km', s)" by (cases y)
  from step [where ko = ko and km = km and st = st and fixed = fixed and km' = km' and s = s] init Inr y
  have 1: "Q (s\<lparr>knowledge := km'\<rparr>)" and I1: "I None km' s" by simp_all
  show ?thesis
  proof (cases fixed)
    case True
    with Inr y 1 show ?thesis
      by (simp add: closure_loop_two_passes final_def)
  next
    case False
    show ?thesis
    proof (cases "iteration None km' s")
      case (Inl x2)
      obtain e2 s2 where x2: "x2 = (e2, s2)" by (cases x2)
      from step [where ko = None and km = km' and st = s and e = e2 and s = s2] I1 Inl x2 have "Q s2" by simp
      with Inr y False Inl x2 show ?thesis
        by (simp add: closure_loop_two_passes final_def)
    next
      case (Inr y2)
      obtain f2 km2 s2 where y2: "y2 = (f2, km2, s2)" by (cases y2)
      from step [where ko = None and km = km' and st = s and fixed = f2 and km' = km2 and s = s2] I1 Inr y2 have "Q (s2\<lparr>knowledge := km2\<rparr>)" by simp
      with \<open>iteration ko km st = Inr y\<close> y False Inr y2 show ?thesis
        by (simp add: closure_loop_two_passes final_def)
    qed
  qed
qed

lemma closure_loop_grows:
  "mines st \<subseteq> mines (final (closure_loop ko km st)) \<and>
   safes st \<subseteq> safes (final (closure_loop ko km st))"
proof (rule closure_loop_final
    [where I = "\<lambda>ko km s. mines st \<subseteq> mines s \<and> safes st \<subseteq> safes s"
       and Q = "\<lambda>s. mines st \<subseteq> mines s \<and> safes st \<subseteq> safes s"])
  fix ko km e fixed km' and s0 s :: ai
  assume "mines st \<subseteq> mines s0 \<and> safes st \<subseteq> safes s0"
  then show "(iteration ko km s0 = Inl (e, s) \<longrightarrow> mines st \<subseteq> mines s \<and> safes st \<subseteq> safes s) \<and>
        (iteration ko km s0 = Inr (fixed, km', s) \<longrightarrow>
           (mines st \<subseteq> mines (s\<lparr>knowledge := km'\<rparr>) \<and> safes st \<subseteq> safes (s\<lparr>knowledge := km'\<rparr>)) \<and>
           mines st \<subseteq> mines s \<and> safes st \<subseteq> safes s)"
    using iteration_fields [of ko km s0 e s fixed km'] by (simp, blast)
qed simp

lemma add_knowledge_grows:
  "mines st \<subseteq> mines (final (add_knowledge cell n st)) \<and>
   safes st \<subseteq> safes (final (add_knowledge cell n st))"
proof -
  obtain st1 where 1: "add_sentence cell n st = Inr st1"
    and m: "mines st1 = mines st" and s: "safes st1 = insert cell (safes st)"
    by (simp add: add_sentence_result)
  from closure_loop_grows [of st1 "Some (knowledge st1)" "knowledge st1"] 1 m s
  show ?thesis
    by (auto simp: add_knowledge_def)
qed

lemma step_grows:
  "mines st \<subseteq> mines (final (step c st)) \<and> safes st \<subseteq> safes (final (step c st))"
proof (cases c)
  case (AddKnowledge cell n)
  then show ?thesis using add_knowledge_grows [of st cell n] by simp
next
  case (MakeSafeMove k)
  then show ?thesis by (simp add: final_def)
next
  case (MakeRandomMove draws)
  then show ?thesis by (simp add: final_def split: option.splits sum.splits)
qed

lemma run_grows:
  "mines st \<subseteq> mines (final (run cs st)) \<and> safes st \<subseteq> safes (final (run cs st))"
proof (induction cs arbitrary: st)
  case Nil
  show ?case by (simp add: final_def)
next
  case (Cons c cs)
  show ?case
  proof (cases "step c st")
    case (Inl x)
    with step_grows [of st c] show ?thesis by simp
  next
    case (Inr st')
    with step_grows [of st c] Cons.IH [of st'] show ?thesis
      by (auto simp: final_def)
  qed
qed

text \<open>
  Claim C8. A call of \<open>add_knowledge\<close> removes no cell from \<open>mines\<close> and none from
  \<open>safes\<close>: every cell in one of the two sets before the call is in it in the state the
  call leaves, whether it returns or raises. The same holds from the start to the end
  of any sequence of calls of the three operations.
\<close>

theorem mines_safes_grow:
  "mines st \<subseteq> mines (final (add_knowledge cell n st)) \<and>
   safes st \<subseteq> safes (final (add_knowledge cell n st)) \<and>
   mines st \<subseteq> mines (final (run cs st)) \<and>
   safes st \<subseteq> safes (final (run cs st))"
  using add_knowledge_grows [of st cell n] run_grows [of st cs] by simp


subsection \<open>The subset rule\<close>

lemma list_remove_occurrences:
  "list_remove h v km = Some km' \<Longrightarrow>
   occurrences h w km' + (if v = w then 1 else 0) = occurrences h w km"
  by (induction km arbitrary: km') (auto simp: occurrences_def split: if_splits)

lemma remove_each_occurrences:
  "remove_each h xs km = Some km' \<Longrightarrow>
   occurrences h w km' + length (filter (\<lambda>x. h ! x = w) xs) = occurrences h w km"
proof (induction xs arbitrary: km)
  case Nil
  then show ?case by simp
next
  case (Cons x xs)
  then obtain km1 where 1: "list_remove h (h ! x) km = Some km1"
    and 2: "remove_each h xs km1 = Some km'"
    by (auto split: option.splits)
  from list_remove_occurrences [OF 1, of w] Cons.IH [OF 2]
  show ?case by (auto split: if_splits)
qed

lemma nth_new_refs:
  "map ((!) (xs @ ys)) [length xs..<length xs + length ys] = ys"
  by (rule nth_equalityI) (simp_all add: nth_append)

lemma set_subset_pairs:
  "set (subset_pairs h ko km) =
     {(a, b). a \<in> set ko \<and> b \<in> set km \<and> cells (h ! b) \<subset> cells (h ! a)}"
  by (auto simp: subset_pairs_def)

text \<open>Every pair that passes the test of line 298 has its new sentence in
  \<open>knowledge_modified\<close> when the pass reaches line 317.\<close>

lemma subsume_derives:
  assumes res: "subsume ko km st = Inr (fixed, km', st')"
    and a: "a \<in> set (the_orig ko km)" and b: "b \<in> set km"
    and sub: "cells (heap st ! b) \<subset> cells (heap st ! a)"
  shows "\<exists>r\<in>set km'. length (heap st) \<le> r \<and>
           heap st' ! r = \<lparr>cells = cells (heap st ! a) - cells (heap st ! b),
                             count = count (heap st ! a) - count (heap st ! b)\<rparr>"
proof -
  define pairs where "pairs = subset_pairs (heap st) (the_orig ko km) km"
  from a b sub have "(a, b) \<in> set pairs"
    by (simp add: pairs_def set_subset_pairs)
  then obtain i where i: "i < length pairs" "pairs ! i = (a, b)"
    by (auto simp: in_set_conv_nth)
  from res obtain km2 where
    km': "km' = km2 @ [length (heap st)..<length (heap st) + length pairs]"
    and st': "heap st' = heap st @ map (derived (heap st)) pairs"
    by (auto simp: subsume_def Let_def pairs_def split: option.splits)
  have "length (heap st) + i \<in> set km'"
    using i by (simp add: km')
  moreover have "heap st' ! (length (heap st) + i) = derived (heap st) (a, b)"
    using i by (simp add: st')
  ultimately show ?thesis
    by (intro bexI [of _ "length (heap st) + i"]) (simp_all add: derived_def)
qed

text \<open>For every pair that passes the test, one sentence equal to its first component
  leaves \<open>knowledge_modified\<close> and its new sentence enters.\<close>

lemma subsume_replaces:
  assumes res: "subsume ko km st = Inr (fixed, km', st')"
    and valid: "\<forall>r\<in>set km \<union> set (the_orig ko km). r < length (heap st)"
  shows "occurrences (heap st') v km'
           + length (filter (\<lambda>p. heap st ! fst p = v) (subset_pairs (heap st) (the_orig ko km) km))
         = occurrences (heap st) v km
           + length (filter (\<lambda>p. derived (heap st) p = v)
                            (subset_pairs (heap st) (the_orig ko km) km))"
proof -
  define pairs where "pairs = subset_pairs (heap st) (the_orig ko km) km"
  define h' where "h' = heap st @ map (derived (heap st)) pairs"
  from res obtain km2 where
    rem: "remove_each h' (map fst pairs) km = Some km2"
    and km': "km' = km2 @ [length (heap st)..<length (heap st) + length pairs]"
    and st': "heap st' = h'"
    by (auto simp: subsume_def Let_def pairs_def h'_def split: option.splits)
  have old: "\<And>r. r < length (heap st) \<Longrightarrow> h' ! r = heap st ! r"
    by (simp add: h'_def nth_append)
  have fst_valid: "\<forall>p\<in>set pairs. fst p < length (heap st)"
    using valid by (auto simp: pairs_def set_subset_pairs)
  have 1: "occurrences h' v km = occurrences (heap st) v km"
    unfolding occurrences_def using valid old
    by (intro arg_cong [where f = length] filter_cong) auto
  have 2: "length (filter (\<lambda>x. h' ! x = v) (map fst pairs))
             = length (filter (\<lambda>p. heap st ! fst p = v) pairs)"
    unfolding filter_map length_map o_def using fst_valid old
    by (intro arg_cong [where f = length] filter_cong) auto
  have "map ((!) h') [length (heap st)..<length (heap st) + length pairs]
          = map (derived (heap st)) pairs"
    using nth_new_refs [of "heap st" "map (derived (heap st)) pairs"]
    by (simp add: h'_def)
  then have "length (filter (\<lambda>s. s = v)
                 (map ((!) h') [length (heap st)..<length (heap st) + length pairs]))
           = length (filter (\<lambda>s. s = v) (map (derived (heap st)) pairs))"
    by simp
  then have 3: "occurrences h' v [length (heap st)..<length (heap st) + length pairs]
           = length (filter (\<lambda>p. derived (heap st) p = v) pairs)"
    by (simp add: occurrences_def filter_map o_def)
  have 4: "occurrences h' v km' = occurrences h' v km2
              + occurrences h' v [length (heap st)..<length (heap st) + length pairs]"
    by (simp add: km' occurrences_def)
  from remove_each_occurrences [OF rem, of v] 1 2 3 4
  show ?thesis
    by (simp add: st' pairs_def)
qed

text \<open>The example of the specification, for any three cells \<open>a\<close>, \<open>b\<close> and \<open>c\<close>: from
  \<open>{a, b, c} = 1\<close> and \<open>{a, b} = 1\<close> the first pass derives \<open>{c} = 0\<close>, and the second
  pass marks \<open>c\<close> safe.\<close>

lemma subset_example:
  assumes "distinct [a, b, c]"
  shows "closure_loop (Some [0, 1]) [0, 1]
           \<lparr>height = h, width = w, moves_made = mv, mines = mi, safes = sa, knowledge = [0, 1],
            heap = [\<lparr>cells = {a, b, c}, count = 1\<rparr>, \<lparr>cells = {a, b}, count = 1\<rparr>]\<rparr>
         = Inr \<lparr>height = h, width = w, moves_made = mv, mines = mi, safes = insert c sa,
                knowledge = [1],
                heap = [\<lparr>cells = {a, b}, count = 1\<rparr>, \<lparr>cells = {a, b}, count = 1\<rparr>,
                        \<lparr>cells = {c}, count = 0\<rparr>]\<rparr>"
proof -
  have c3: "card {a, b, c} = 3" "card {a, b} = 2" using assms by auto
  have s: "\<not> {a, b, c} \<subseteq> {a, b}" "{a, b, c} - {a, b} = {c}" "{a, b, c} - {c} = {a, b}"
     "{a, b} \<noteq> {a, b, c}" "{a, b} \<noteq> {c}" "c \<notin> {a, b}"
    using assms by auto
  show ?thesis
    using assms
    by (auto simp: closure_loop_two_passes iteration_def resolve_def subsume_def
        subset_pairs_def derived_def the_orig_def iter_set_def mark_safe_def heap_mark_safe_def
        sentence_mark_safe_def Let_def c3 s)
qed

text \<open>
  Claim C1, as the code has it. In a pass of the loop that reaches line 317, let
  \<open>knowledge_original\<close>, \<open>knowledge_modified\<close> and the sentences be as they are at line 288,
  when the direct conclusions of the pass have been drawn: the resolved sentences are
  out of \<open>knowledge_modified\<close> and the marked cells out of the sentences of
  \<open>self.knowledge\<close>. Then for every \<open>A\<close> of \<open>knowledge_original\<close> and \<open>B\<close> of
  \<open>knowledge_modified\<close> with \<open>B.cells\<close> a strict subset of \<open>A.cells\<close>, a new sentence
  \<open>{A.cells - B.cells, A.count - B.count}\<close> is in \<open>knowledge_modified\<close> at line 317; and
  for every sentence \<open>v\<close>, the number of sentences equal to \<open>v\<close> in \<open>knowledge_modified\<close> has
  gone down by the number of such pairs whose \<open>A\<close> equals \<open>v\<close> and up by the number of such
  pairs whose new sentence equals \<open>v\<close>. In particular, from \<open>{a, b, c} = 1\<close> and
  \<open>{a, b} = 1\<close> the loop derives \<open>{c} = 0\<close> and returns with \<open>c\<close> in \<open>safes\<close>.
\<close>

theorem subset_rule:
  "(subsume ko km st = Inr (fixed, km', st') \<and>
    (\<forall>r\<in>set km \<union> set (the_orig ko km). r < length (heap st)) \<longrightarrow>
      (\<forall>a\<in>set (the_orig ko km). \<forall>b\<in>set km.
          cells (heap st ! b) \<subset> cells (heap st ! a) \<longrightarrow>
          (\<exists>r\<in>set km'. length (heap st) \<le> r \<and>
             heap st' ! r = \<lparr>cells = cells (heap st ! a) - cells (heap st ! b),
                               count = count (heap st ! a) - count (heap st ! b)\<rparr>)) \<and>
      (\<forall>v. occurrences (heap st') v km'
              + length (filter (\<lambda>p. heap st ! fst p = v)
                               (subset_pairs (heap st) (the_orig ko km) km))
            = occurrences (heap st) v km
              + length (filter (\<lambda>p. derived (heap st) p = v)
                               (subset_pairs (heap st) (the_orig ko km) km)))) \<and>
   (distinct [a, b, c] \<longrightarrow>
      closure_loop (Some [0, 1]) [0, 1]
         \<lparr>height = h, width = w, moves_made = mv, mines = mi, safes = sa, knowledge = [0, 1],
          heap = [\<lparr>cells = {a, b, c}, count = 1\<rparr>, \<lparr>cells = {a, b}, count = 1\<rparr>]\<rparr>
       = Inr \<lparr>height = h, width = w, moves_made = mv, mines = mi, safes = insert c sa,
              knowledge = [1],
              heap = [\<lparr>cells = {a, b}, count = 1\<rparr>, \<lparr>cells = {a, b}, count = 1\<rparr>,
                      \<lparr>cells = {c}, count = 0\<rparr>]\<rparr>)"
  using subsume_derives [of ko km st fixed km' st'] subsume_replaces [of ko km st fixed km' st']
    subset_example [of a b c h w mv mi sa]
  by blast


theorem subset_rule_witness:
  "subsume (Some [0, 1]) [0, 1] abc_state
     = Inr (False, [1, 2], abc_state\<lparr>heap := heap abc_state @ [\<lparr>cells = {(0, 2)}, count = 0\<rparr>]\<rparr>) \<and>
   cells (heap abc_state ! 1) \<subset> cells (heap abc_state ! 0) \<and>
   heap (abc_state\<lparr>heap := heap abc_state @ [\<lparr>cells = {(0, 2)}, count = 0\<rparr>]\<rparr>) ! 2
     = \<lparr>cells = {(0, 2)}, count = 0\<rparr> \<and>
   distinct [(0, 0), (0, 1), (0 :: int, 2 :: int)] \<and>
   closure_loop (Some [0, 1]) [0, 1] abc_state
     = Inr \<lparr>height = 1, width = 3, moves_made = {}, mines = {}, safes = {(0, 2)},
            knowledge = [1],
            heap = [\<lparr>cells = {(0, 0), (0, 1)}, count = 1\<rparr>, \<lparr>cells = {(0, 0), (0, 1)}, count = 1\<rparr>,
                    \<lparr>cells = {(0, 2)}, count = 0\<rparr>]\<rparr>"
proof -
  have h1: "subsume (Some [0, 1]) [0, 1] abc_state
     = Inr (False, [1, 2], abc_state\<lparr>heap := heap abc_state @ [\<lparr>cells = {(0, 2)}, count = 0\<rparr>]\<rparr>)"
    by code_simp
  have h2: "\<forall>r\<in>set [0, 1] \<union> set (the_orig (Some [0, 1]) [0, 1]). r < length (heap abc_state)"
    by (simp add: abc_state_def the_orig_def)
  have h3: "distinct [(0, 0), (0, 1), (0 :: int, 2 :: int)]"
    by simp
  have h4: "cells (heap abc_state ! 1) \<subset> cells (heap abc_state ! 0)"
    by code_simp
  have h5: "(0 :: nat) \<in> set (the_orig (Some [0, 1]) [0, 1])" "(1 :: nat) \<in> set [0, 1]"
    by (simp_all add: the_orig_def)
  note rule = subset_rule [of "Some [0, 1]" "[0, 1]" abc_state False "[1, 2]"
      "abc_state\<lparr>heap := heap abc_state @ [\<lparr>cells = {(0, 2)}, count = 0\<rparr>]\<rparr>"
      "(0, 0)" "(0, 1)" "(0, 2)" 1 3 "{}" "{}" "{}"]
  from rule h1 h2 h4 h5
  have "\<exists>r\<in>set [1, 2]. length (heap abc_state) \<le> r \<and>
          heap (abc_state\<lparr>heap := heap abc_state @ [\<lparr>cells = {(0, 2)}, count = 0\<rparr>]\<rparr>) ! r
            = \<lparr>cells = cells (heap abc_state ! 0) - cells (heap abc_state ! 1),
               count = count (heap abc_state ! 0) - count (heap abc_state ! 1)\<rparr>"
    by blast
  then have c1: "heap (abc_state\<lparr>heap := heap abc_state @ [\<lparr>cells = {(0, 2)}, count = 0\<rparr>]\<rparr>) ! 2
     = \<lparr>cells = {(0, 2)}, count = 0\<rparr>"
    by (simp add: abc_state_def)
  from rule h3
  have c2: "closure_loop (Some [0, 1]) [0, 1] abc_state
     = Inr \<lparr>height = 1, width = 3, moves_made = {}, mines = {}, safes = {(0, 2)},
            knowledge = [1],
            heap = [\<lparr>cells = {(0, 0), (0, 1)}, count = 1\<rparr>, \<lparr>cells = {(0, 0), (0, 1)}, count = 1\<rparr>,
                    \<lparr>cells = {(0, 2)}, count = 0\<rparr>]\<rparr>"
    unfolding abc_state_def by blast
  from h1 h3 h4 c1 c2 show ?thesis by blast
qed

text \<open>
  Claim C1 as stated fails. In the game \<open>game_c\<close> the player reveals \<open>(0, 1)\<close>, \<open>(1, 0)\<close>
  and \<open>(1, 1)\<close>. When the third call enters the loop, the sentence \<open>{(0, 2), (1, 2)} = 1\<close>
  at reference 2 is a strict subset of \<open>{(0, 0), (0, 2), (1, 2)} = 2\<close> at reference 3. The
  first pass resolves \<open>{(0, 0)} = 1\<close> and marks \<open>(0, 0)\<close> a mine before it looks for
  subsets; the two cell sets are then equal, no sentence is derived (the heap holds the
  same four objects at the end), and the sentence at reference 3 stays in \<open>knowledge\<close>.
\<close>

theorem subset_pair_not_replaced:
  "list_all (truthful game_c) (map (clue game_c) [(0, 1), (1, 0), (1, 1)]) \<and>
   add_sentence (1, 1) 2 (final (run (map (clue game_c) [(0, 1), (1, 0)]) (new_ai 2 3)))
     = Inr loop_state_c \<and>
   cells (heap loop_state_c ! 2) \<subset> cells (heap loop_state_c ! 3) \<and>
   closure_loop (Some (knowledge loop_state_c)) (knowledge loop_state_c) loop_state_c
     = Inr \<lparr>height = 2, width = 3, moves_made = {(0, 1), (1, 0), (1, 1)}, mines = {(0, 0)},
            safes = {(0, 1), (1, 0), (1, 1)}, knowledge = [2, 3],
            heap = [\<lparr>cells = {(0, 0), (0, 2), (1, 1), (1, 2)}, count = 2\<rparr>,
                    \<lparr>cells = {}, count = 0\<rparr>,
                    \<lparr>cells = {(0, 2), (1, 2)}, count = 1\<rparr>,
                    \<lparr>cells = {(0, 2), (1, 2)}, count = 1\<rparr>]\<rparr>"
  by code_simp


subsection \<open>Soundness of the knowledge in a truthful play\<close>

lemma holds_mark_safe: "holds M s \<Longrightarrow> c \<notin> M \<Longrightarrow> holds M (sentence_mark_safe c s)"
proof -
  assume h: "holds M s" and c: "c \<notin> M"
  from c have "(cells s - {c}) \<inter> M = cells s \<inter> M" by auto
  with h show ?thesis by (simp add: holds_def sentence_mark_safe_def)
qed

lemma holds_mark_mine: "holds M s \<Longrightarrow> c \<in> M \<Longrightarrow> holds M (sentence_mark_mine c s)"
proof (cases "c \<in> cells s")
  case False
  assume "holds M s"
  with False show ?thesis by (simp add: sentence_mark_mine_def)
next
  case True
  assume h: "holds M s" and c: "c \<in> M"
  from h have fin: "finite (cells s \<inter> M)" by (simp add: holds_def)
  from True c have in': "c \<in> cells s \<inter> M" by simp
  have eq: "(cells s - {c}) \<inter> M = (cells s \<inter> M) - {c}" by auto
  from fin in' have "card (cells s \<inter> M) > 0" by (auto simp: card_gt_0_iff)
  then have "int (card ((cells s \<inter> M) - {c})) = int (card (cells s \<inter> M)) - 1"
    using fin in' by (simp add: card_Diff_singleton of_nat_diff)
  with h True show ?thesis
    by (simp add: holds_def sentence_mark_mine_def eq)
qed

lemma list_all_update:
  assumes "list_all P xs" and "r < length xs \<Longrightarrow> P v"
  shows "list_all P (xs[r := v])"
proof (cases "r < length xs")
  case True
  with assms show ?thesis
    by (auto simp: list_all_iff dest: set_update_subset_insert [THEN subsetD])
next
  case False
  then have "xs[r := v] = xs" by (simp add: list_update_beyond)
  with assms show ?thesis by simp
qed

lemma list_all_nth: "list_all P xs \<Longrightarrow> r < length xs \<Longrightarrow> P (xs ! r)"
  by (simp add: list_all_length)

lemma fold_heap_mark_safe_holds:
  "list_all (holds M) (heap st) \<Longrightarrow> c \<notin> M \<Longrightarrow>
   list_all (holds M) (heap (fold (heap_mark_safe c) rs st))"
proof (induction rs arbitrary: st)
  case Nil
  then show ?case by simp
next
  case (Cons r rs)
  have "list_all (holds M) ((heap st)[r := sentence_mark_safe c (heap st ! r)])"
  proof (rule list_all_update)
    show "list_all (holds M) (heap st)" by fact
  next
    assume "r < length (heap st)"
    with Cons.prems(1) have "holds M (heap st ! r)" by (rule list_all_nth)
    then show "holds M (sentence_mark_safe c (heap st ! r))"
      using Cons.prems(2) by (rule holds_mark_safe)
  qed
  then have "list_all (holds M) (heap (heap_mark_safe c r st))"
    by (simp add: heap_mark_safe_def)
  with Cons show ?case by simp
qed

lemma fold_heap_mark_mine_holds:
  "list_all (holds M) (heap st) \<Longrightarrow> c \<in> M \<Longrightarrow>
   list_all (holds M) (heap (fold (heap_mark_mine c) rs st))"
proof (induction rs arbitrary: st)
  case Nil
  then show ?case by simp
next
  case (Cons r rs)
  have "list_all (holds M) ((heap st)[r := sentence_mark_mine c (heap st ! r)])"
  proof (rule list_all_update)
    show "list_all (holds M) (heap st)" by fact
  next
    assume "r < length (heap st)"
    with Cons.prems(1) have "holds M (heap st ! r)" by (rule list_all_nth)
    then show "holds M (sentence_mark_mine c (heap st ! r))"
      using Cons.prems(2) by (rule holds_mark_mine)
  qed
  then have "list_all (holds M) (heap (heap_mark_mine c r st))"
    by (simp add: heap_mark_mine_def)
  with Cons show ?case by simp
qed

lemma mark_safe_sound: "sound g st \<Longrightarrow> c \<notin> mine_cells g \<Longrightarrow> sound g (mark_safe c st)"
  using fold_heap_mark_safe_holds [of "mine_cells g" "st\<lparr>safes := insert c (safes st)\<rparr>" c "knowledge st"]
  by (simp add: sound_def) (simp add: mark_safe_def)

lemma mark_mine_sound: "sound g st \<Longrightarrow> c \<in> mine_cells g \<Longrightarrow> sound g (mark_mine c st)"
  using fold_heap_mark_mine_holds [of "mine_cells g" "st\<lparr>mines := insert c (mines st)\<rparr>" c "knowledge st"]
  by (simp add: sound_def) (simp add: mark_mine_def)

lemma fold_mark_safe_sound:
  "sound g st \<Longrightarrow> set xs \<inter> mine_cells g = {} \<Longrightarrow> sound g (fold mark_safe xs st)"
  by (induction xs arbitrary: st) (auto intro: mark_safe_sound)

lemma fold_mark_mine_sound:
  "sound g st \<Longrightarrow> set xs \<subseteq> mine_cells g \<Longrightarrow> sound g (fold mark_mine xs st)"
  by (induction xs arbitrary: st) (auto intro: mark_mine_sound)

text \<open>The direct conclusions of the scan are true of the game.\<close>

lemma holds_count_0: "holds M s \<Longrightarrow> count s = 0 \<Longrightarrow> cells s \<inter> M = {}"
proof -
  assume "holds M s" "count s = 0"
  then have "finite (cells s \<inter> M)" "card (cells s \<inter> M) = 0"
    by (simp_all add: holds_def)
  then show ?thesis by simp
qed

lemma holds_count_all: "holds M s \<Longrightarrow> count s = int (card (cells s)) \<Longrightarrow> cells s \<subseteq> M"
proof -
  assume h: "holds M s" and c: "count s = int (card (cells s))"
  then have "card (cells s \<inter> M) = card (cells s)" and fin: "finite (cells s)"
    by (simp_all add: holds_def)
  with card_subset_eq [of "cells s" "cells s \<inter> M"] have "cells s \<inter> M = cells s" by simp
  then show ?thesis by auto
qed

lemma scan_sound:
  "list_all (holds M) h \<Longrightarrow> \<forall>r\<in>set rs. r < length h \<Longrightarrow> ns \<inter> M = {} \<Longrightarrow> nm \<subseteq> M \<Longrightarrow>
   scan h rs (ns, nm, rem) = (ns', nm', rem') \<Longrightarrow> ns' \<inter> M = {} \<and> nm' \<subseteq> M"
proof (induction rs arbitrary: ns nm rem)
  case Nil
  then show ?case by simp
next
  case (Cons r rs)
  from Cons.prems have hr: "holds M (h ! r)" by (simp add: list_all_nth)
  from Cons.prems have rs: "\<forall>r\<in>set rs. r < length h" by simp
  show ?case
  proof (cases "count (h ! r) = 0")
    case True
    with hr have "(ns \<union> cells (h ! r)) \<inter> M = {}"
      using holds_count_0 [of M "h ! r"] Cons.prems(3) by auto
    from Cons.IH [OF Cons.prems(1) rs this Cons.prems(4)] Cons.prems(5) True
    show ?thesis by simp
  next
    case False
    show ?thesis
    proof (cases "count (h ! r) = int (card (cells (h ! r)))")
      case True
      with hr have "nm \<union> cells (h ! r) \<subseteq> M"
        using holds_count_all [of M "h ! r"] Cons.prems(4) by auto
      from Cons.IH [OF Cons.prems(1) rs Cons.prems(3) this] Cons.prems(5) True False
      show ?thesis by simp
    next
      case no: False
      from Cons.IH [OF Cons.prems(1) rs Cons.prems(3) Cons.prems(4)] Cons.prems(5) False no
      show ?thesis by simp
    qed
  qed
qed

lemma list_remove_subset: "list_remove h v km = Some km' \<Longrightarrow> set km' \<subseteq> set km"
  by (induction km arbitrary: km') (auto split: if_splits)

lemma remove_each_subset: "remove_each h xs km = Some km' \<Longrightarrow> set km' \<subseteq> set km"
proof (induction xs arbitrary: km)
  case Nil
  then show ?case by simp
next
  case (Cons x xs)
  then obtain km1 where 1: "list_remove h (h ! x) km = Some km1"
    and 2: "remove_each h xs km1 = Some km'"
    by (auto split: option.splits)
  from list_remove_subset [OF 1] Cons.IH [OF 2] show ?case by auto
qed


text \<open>The two parts of a pass keep the state sound and the references valid.\<close>

lemma resolve_sound:
  assumes snd: "sound g st"
    and orig: "\<forall>r\<in>set (the_orig ko km). r < length (heap st)"
    and res: "resolve ko km st = Inl (e, s) \<or> resolve ko km st = Inr (km1, s)"
  shows "sound g s \<and> length (heap s) = length (heap st) \<and>
         (resolve ko km st = Inr (km1, s) \<longrightarrow> set km1 \<subseteq> set km)"
proof -
  obtain ns nm rem where sc: "scan (heap st) (the_orig ko km) ({}, {}, []) = (ns, nm, rem)"
    by (cases "scan (heap st) (the_orig ko km) ({}, {}, [])") auto
  from snd have ok: "list_all (holds (mine_cells g)) (heap st)" by (simp add: sound_def)
  from scan_sound [OF ok orig _ _ sc]
  have ns: "ns \<inter> mine_cells g = {}" and nm: "nm \<subseteq> mine_cells g" by simp_all
  define s2 where "s2 = fold mark_mine (iter_set nm) (fold mark_safe (iter_set ns) st)"
  have "set (iter_set ns) \<inter> mine_cells g = {}"
    using ns iter_set_subset [of ns] by auto
  then have "sound g (fold mark_safe (iter_set ns) st)"
    using snd by (rule fold_mark_safe_sound [rotated])
  moreover have "set (iter_set nm) \<subseteq> mine_cells g"
    using nm iter_set_subset [of nm] by auto
  ultimately have s2: "sound g s2"
    unfolding s2_def by (rule fold_mark_mine_sound)
  have len: "length (heap s2) = length (heap st)"
    by (simp add: s2_def fold_mark_safe_fields fold_mark_mine_fields)
  from res have "s = s2"
    by (auto simp: resolve_def sc Let_def s2_def split: option.splits)
  moreover from res have "resolve ko km st = Inr (km1, s) \<longrightarrow> set km1 \<subseteq> set km"
    by (auto simp: resolve_def sc Let_def split: option.splits dest: remove_each_subset)
  ultimately show ?thesis using s2 len by simp
qed

lemma holds_derived:
  assumes a: "holds M (h ! a)" and b: "holds M (h ! b)"
    and sub: "cells (h ! b) \<subseteq> cells (h ! a)"
  shows "holds M (derived h (a, b))"
proof -
  from a b have fin: "finite (cells (h ! a))" "finite (cells (h ! b) \<inter> M)"
    and ca: "count (h ! a) = int (card (cells (h ! a) \<inter> M))"
    and cb: "count (h ! b) = int (card (cells (h ! b) \<inter> M))"
    by (simp_all add: holds_def)
  have eq: "(cells (h ! a) - cells (h ! b)) \<inter> M = (cells (h ! a) \<inter> M) - (cells (h ! b) \<inter> M)"
    by auto
  have incl: "cells (h ! b) \<inter> M \<subseteq> cells (h ! a) \<inter> M" using sub by auto
  have le: "card (cells (h ! b) \<inter> M) \<le> card (cells (h ! a) \<inter> M)"
    using incl fin by (simp add: card_mono)
  have "card ((cells (h ! a) \<inter> M) - (cells (h ! b) \<inter> M))
          = card (cells (h ! a) \<inter> M) - card (cells (h ! b) \<inter> M)"
    using fin(2) incl by (rule card_Diff_subset)
  with le fin show ?thesis
    by (simp add: holds_def derived_def eq ca cb of_nat_diff)
qed

lemma subsume_sound:
  assumes snd: "sound g st"
    and km: "\<forall>r\<in>set km. r < length (heap st)"
    and orig: "\<forall>r\<in>set (the_orig ko km). r < length (heap st)"
    and res: "subsume ko km st = Inl (e, s) \<or> subsume ko km st = Inr (fixed, km', s)"
  shows "sound g s \<and>
         (subsume ko km st = Inr (fixed, km', s) \<longrightarrow> (\<forall>r\<in>set km'. r < length (heap s)))"
proof -
  define pairs where "pairs = subset_pairs (heap st) (the_orig ko km) km"
  define s' where "s' = st\<lparr>heap := heap st @ map (derived (heap st)) pairs\<rparr>"
  from snd have ok: "list_all (holds (mine_cells g)) (heap st)" by (simp add: sound_def)
  have "holds (mine_cells g) (derived (heap st) p)" if "p \<in> set pairs" for p
  proof -
    obtain a b where p: "p = (a, b)" by (cases p)
    from that p have "a \<in> set (the_orig ko km)" "b \<in> set km"
      "cells (heap st ! b) \<subseteq> cells (heap st ! a)"
      by (auto simp: pairs_def set_subset_pairs)
    with km orig have "a < length (heap st)" "b < length (heap st)" by auto
    with ok have "holds (mine_cells g) (heap st ! a)" "holds (mine_cells g) (heap st ! b)"
      by (auto intro: list_all_nth)
    then show ?thesis
      unfolding p using \<open>cells (heap st ! b) \<subseteq> cells (heap st ! a)\<close> by (rule holds_derived)
  qed
  then have new: "list_all (holds (mine_cells g)) (map (derived (heap st)) pairs)"
    by (simp add: list_all_iff)
  have s': "sound g s'"
    using snd new unfolding sound_def s'_def
    by (auto simp: list_all_iff)
  from res have s: "s = s'"
    by (auto simp: subsume_def Let_def pairs_def s'_def split: option.splits)
  have "\<forall>r\<in>set km'. r < length (heap s)" if r: "subsume ko km st = Inr (fixed, km', s)"
  proof -
    from r obtain km2 where 1: "remove_each (heap s') (map fst pairs) km = Some km2"
      and 2: "km' = km2 @ [length (heap st)..<length (heap st) + length pairs]"
      by (auto simp: subsume_def Let_def pairs_def s'_def split: option.splits)
    from remove_each_subset [OF 1] km have "\<forall>r\<in>set km2. r < length (heap st)" by auto
    then show ?thesis
      by (auto simp: 2 s s'_def)
  qed
  with s s' show ?thesis by simp
qed

lemma iteration_sound:
  assumes snd: "sound g st"
    and km: "\<forall>r\<in>set km. r < length (heap st)"
    and orig: "\<forall>r\<in>set (the_orig ko km). r < length (heap st)"
  shows "(iteration ko km st = Inl (e, s) \<longrightarrow> sound g s) \<and>
         (iteration ko km st = Inr (fixed, km', s) \<longrightarrow>
            sound g s \<and> (\<forall>r\<in>set km'. r < length (heap s)))"
proof (cases "resolve ko km st")
  case (Inl x)
  obtain e1 s1 where x: "x = (e1, s1)" by (cases x)
  from resolve_sound [OF snd orig, of e1 s1] Inl x have "sound g s1" by simp
  with Inl x show ?thesis by (auto simp: iteration_def)
next
  case (Inr y)
  obtain km1 s1 where y: "y = (km1, s1)" by (cases y)
  from resolve_sound [OF snd orig, of _ s1 km1] Inr y
  have s1: "sound g s1" and len: "length (heap s1) = length (heap st)"
    and sub: "set km1 \<subseteq> set km" by simp_all
  from sub km len have km1: "\<forall>r\<in>set km1. r < length (heap s1)" by auto
  have orig1: "\<forall>r\<in>set (the_orig ko km1). r < length (heap s1)"
    using orig km1 len by (cases ko) (simp_all add: the_orig_def)
  from subsume_sound [OF s1 km1 orig1, of e s fixed km'] Inr y
  show ?thesis by (simp add: iteration_def)
qed

lemma sound_knowledge:
  "sound g s \<Longrightarrow> \<forall>r\<in>set km. r < length (heap s) \<Longrightarrow> sound g (s\<lparr>knowledge := km\<rparr>)"
  by (simp add: sound_def list_all_iff)

lemma closure_loop_sound:
  assumes "sound g st" "\<forall>r\<in>set km. r < length (heap st)"
    "\<forall>r\<in>set (the_orig ko km). r < length (heap st)"
  shows "sound g (final (closure_loop ko km st))"
proof (rule closure_loop_final
    [where I = "\<lambda>ko km s. sound g s \<and> (\<forall>r\<in>set km. r < length (heap s)) \<and>
                          (\<forall>r\<in>set (the_orig ko km). r < length (heap s))"
       and Q = "sound g"])
  fix ko km e fixed km' and s0 s :: ai
  assume I: "sound g s0 \<and> (\<forall>r\<in>set km. r < length (heap s0)) \<and>
             (\<forall>r\<in>set (the_orig ko km). r < length (heap s0))"
  from iteration_sound [of g s0 km ko e s fixed km'] I
  show "(iteration ko km s0 = Inl (e, s) \<longrightarrow> sound g s) \<and>
        (iteration ko km s0 = Inr (fixed, km', s) \<longrightarrow>
           sound g (s\<lparr>knowledge := km'\<rparr>) \<and>
           (sound g s \<and> (\<forall>r\<in>set km'. r < length (heap s)) \<and>
            (\<forall>r\<in>set (the_orig None km'). r < length (heap s))))"
    by (auto simp: the_orig_def intro: sound_knowledge)
next
  from assms show "sound g st \<and> (\<forall>r\<in>set km. r < length (heap st)) \<and>
      (\<forall>r\<in>set (the_orig ko km). r < length (heap st))" by simp
qed

text \<open>The count the game gives for a cell is the number of mines among the neighbours
  that \<open>add_knowledge\<close> computes, and the new sentence holds of the game.\<close>

lemma nearby_mines_neighbors:
  assumes "height st = g_height g" "width st = g_width g"
  shows "nearby_mines g cell = int (card (neighbors_of st cell \<inter> mine_cells g))"
proof -
  obtain ci cj where cell: "cell = (ci, cj)" by (cases cell)
  define P where "P = (\<lambda>(i, j). (i, j) \<noteq> cell \<and> 0 \<le> i \<and> i < g_height g \<and> 0 \<le> j \<and> j < g_width g
                                  \<and> board g ! nat i ! nat j)"
  have "neighbors_of st cell \<inter> mine_cells g = set (filter P (block cell))"
    using assms
    by (auto simp: neighbors_of_def mine_cells_iff in_bounds_def is_mine_def P_def)
  moreover have "card (set (filter P (block cell))) = length (filter P (block cell))"
    by (rule distinct_card) (simp add: distinct_block)
  moreover have "nearby_mines g cell = int (length (filter P (block cell)))"
    by (simp add: nearby_mines_def P_def)
  ultimately show ?thesis by simp
qed

lemma add_sentence_sound:
  assumes snd: "sound g st" and cell: "cell \<notin> mine_cells g"
    and n: "n = nearby_mines g cell"
  shows "\<exists>st1. add_sentence cell n st = Inr st1 \<and> sound g st1"
proof -
  define M where "M = mine_cells g"
  define N where "N = neighbors_of st cell"
  define st0 where "st0 = mark_safe cell (st\<lparr>moves_made := insert cell (moves_made st)\<rparr>)"
  from snd have dims: "height st = g_height g" "width st = g_width g"
    and mi: "mines st \<subseteq> M" and sa: "safes st \<inter> M = {}"
    by (simp_all add: sound_def M_def)
  have n': "n = int (card (N \<inter> M))"
    using n nearby_mines_neighbors [OF dims, of cell] by (simp add: N_def M_def)
  have "sound g (st\<lparr>moves_made := insert cell (moves_made st)\<rparr>)"
    using snd by (simp add: sound_def)
  then have st0: "sound g st0"
    unfolding st0_def using cell by (rule mark_safe_sound)
  have finN: "finite N" by (simp add: N_def)
  have e1: "(N - insert cell (safes st) - mines st) \<inter> M = (N \<inter> M) - (N \<inter> mines st)"
    using sa cell by (auto simp: M_def)
  have e2: "N \<inter> (mines st - insert cell (safes st)) = N \<inter> mines st"
    using mi sa cell by (auto simp: M_def)
  have incl: "N \<inter> mines st \<subseteq> N \<inter> M" using mi by auto
  have "card ((N \<inter> M) - (N \<inter> mines st)) = card (N \<inter> M) - card (N \<inter> mines st)"
    using finN incl by (intro card_Diff_subset) auto
  moreover have "card (N \<inter> mines st) \<le> card (N \<inter> M)"
    using finN incl by (intro card_mono) auto
  ultimately have new: "holds M \<lparr>cells = N - insert cell (safes st) - mines st,
                                 count = n - int (card (N \<inter> (mines st - insert cell (safes st))))\<rparr>"
    using finN by (simp add: holds_def e1 e2 n' of_nat_diff)
  have "sound g (st0\<lparr>heap := heap st0 @
            [\<lparr>cells = N - insert cell (safes st) - mines st,
              count = n - int (card (N \<inter> (mines st - insert cell (safes st))))\<rparr>],
          knowledge := knowledge st @ [length (heap st)]\<rparr>)"
    using st0 new
    by (auto simp: sound_def M_def list_all_iff st0_def)
  then show ?thesis
    by (simp add: add_sentence_result N_def st0_def)
qed

lemma add_knowledge_sound:
  assumes "sound g st" "cell \<notin> mine_cells g" "n = nearby_mines g cell"
  shows "sound g (final (add_knowledge cell n st))"
proof -
  from add_sentence_sound [OF assms] obtain st1
    where 1: "add_sentence cell n st = Inr st1" and 2: "sound g st1" by blast
  from 2 have v: "\<forall>r\<in>set (knowledge st1). r < length (heap st1)"
    by (simp add: sound_def list_all_iff)
  from closure_loop_sound [of g st1 "knowledge st1" "Some (knowledge st1)"] 2 v
  show ?thesis
    by (simp add: add_knowledge_def 1 the_orig_def)
qed

lemma step_sound:
  assumes "sound g st" "truthful g c"
  shows "sound g (final (step c st))"
proof (cases c)
  case (AddKnowledge cell n)
  with assms have "cell \<notin> mine_cells g" "n = nearby_mines g cell"
    by (simp_all add: mine_cells_iff)
  from add_knowledge_sound [OF assms(1) this] AddKnowledge show ?thesis by simp
next
  case (MakeSafeMove k)
  with assms show ?thesis by (simp add: final_def)
next
  case (MakeRandomMove draws)
  with assms show ?thesis by (simp add: final_def split: option.splits sum.splits)
qed

lemma run_sound:
  "sound g st \<Longrightarrow> list_all (truthful g) cs \<Longrightarrow> sound g (final (run cs st))"
proof (induction cs arbitrary: st)
  case Nil
  then show ?case by (simp add: final_def)
next
  case (Cons c cs)
  from Cons.prems have c: "truthful g c" and cs: "list_all (truthful g) cs" by simp_all
  show ?case
  proof (cases "step c st")
    case (Inl x)
    with step_sound [OF Cons.prems(1) c] show ?thesis by simp
  next
    case (Inr st')
    with step_sound [OF Cons.prems(1) c] have "sound g st'" by (simp add: final_def)
    from Cons.IH [OF this cs] Inr show ?thesis by simp
  qed
qed

lemma sound_new_ai: "sound g (new_ai (g_height g) (g_width g))"
  by (simp add: sound_def new_ai_def)

text \<open>
  Claim C7, as the code has it. Take a game and a fresh player of its size, and any
  sequence of calls of \<open>add_knowledge\<close>, \<open>make_safe_move\<close> and \<open>make_random_move\<close> in which
  every call of \<open>add_knowledge\<close> is truthful: its cell is on the board and free of a mine,
  and its count is the number the game gives for that cell. Then in the state the
  sequence leaves, whether its last call returned or raised, no cell is in both \<open>mines\<close>
  and \<open>safes\<close>; every cell of \<open>mines\<close> is a mine of the game and no cell of \<open>safes\<close> is
  one. A prefix of such a sequence is such a sequence, so this holds after every call.
\<close>

theorem mines_safes_disjoint:
  assumes "list_all (truthful g) cs"
  shows "mines (final (run cs (new_ai (g_height g) (g_width g))))
           \<inter> safes (final (run cs (new_ai (g_height g) (g_width g)))) = {} \<and>
         mines (final (run cs (new_ai (g_height g) (g_width g)))) \<subseteq> mine_cells g \<and>
         safes (final (run cs (new_ai (g_height g) (g_width g)))) \<inter> mine_cells g = {}"
  using run_sound [OF sound_new_ai assms]
  by (auto simp: sound_def)

theorem mines_safes_disjoint_witness:
  "list_all (truthful game_b) (map (clue game_b) [(0, 2), (1, 0), (1, 2), (2, 2)]) \<and>
   mines (final (run (map (clue game_b) [(0, 2), (1, 0), (1, 2), (2, 2)]) (new_ai 3 3)))
     \<inter> safes (final (run (map (clue game_b) [(0, 2), (1, 0), (1, 2), (2, 2)]) (new_ai 3 3))) = {}"
proof -
  have h: "list_all (truthful game_b) (map (clue game_b) [(0, 2), (1, 0), (1, 2), (2, 2)])"
    by code_simp
  have d: "g_height game_b = 3" "g_width game_b = 3"
    by (simp_all add: game_b_def)
  from mines_safes_disjoint [OF h] h show ?thesis
    by (simp add: d)
qed

text \<open>
  Claim C7 as stated fails: it holds of truthful calls only. On a board of 1 by 2
  cells, \<open>add_knowledge((0, 1), 1)\<close> marks \<open>(0, 0)\<close> a mine, and \<open>add_knowledge((0, 0), 0)\<close>
  then marks the same cell safe: \<open>mark_safe\<close> adds to \<open>safes\<close> without a look at
  \<open>mines\<close>.
\<close>

theorem mines_safes_overlap:
  "run [AddKnowledge (0, 1) 1, AddKnowledge (0, 0) 0] (new_ai 1 2) =
     Inr \<lparr>height = 1, width = 2, moves_made = {(0, 0), (0, 1)}, mines = {(0, 0)},
          safes = {(0, 0), (0, 1)}, knowledge = [],
          heap = [\<lparr>cells = {}, count = 0\<rparr>, \<lparr>cells = {}, count = 0\<rparr>]\<rparr>"
  by code_simp


end
